theory Spec2Isabelle
  imports Complex_Main "HOL-Library.Word"
begin

unbundle bit_operations_syntax

section \<open>The STL reader \<^verbatim>\<open>RWStl_Reader\<close>: a shallow embedding\<close>

text \<open>
  The development follows \<^verbatim>\<open>RWStl_Reader.cxx\<close>. Bytes of the file are \<^typ>\<open>char\<close>
  (the C \<^verbatim>\<open>char\<close>), read as unsigned through \<^term>\<open>of_char\<close>. The mesh sink (the
  virtual \<^verbatim>\<open>AddNode\<close>/\<^verbatim>\<open>AddTriangle\<close> of the reader), the progress indicator and the
  message log are external: the sink is an oracle on the history of calls, the user
  break is an oracle on the number of polls, and the messages sent by
  \<^verbatim>\<open>Message::SendFail\<close> are collected in a list.
\<close>

subsection \<open>Constants of the binary format\<close>

definition THE_STL_HEADER_SIZE :: nat where
  "THE_STL_HEADER_SIZE = 84"

definition THE_STL_SIZEOF_FACET :: nat where
  "THE_STL_SIZEOF_FACET = 50"

definition THE_STL_MIN_FILE_SIZE :: nat where
  "THE_STL_MIN_FILE_SIZE = THE_STL_HEADER_SIZE + THE_STL_SIZEOF_FACET"

definition THE_BUFFER_SIZE :: nat where
  "THE_BUFFER_SIZE = 1024"

subsection \<open>Messages of \<^verbatim>\<open>Message::SendFail\<close>\<close>

text \<open>
  One constructor per message text of the source; the line number that the source
  appends to the text is the argument.
  \<^item> \<open>Cannot_read_file\<close>: "Error: Cannot read file"
  \<^item> \<open>Premature_end_of_file\<close>: "Error: premature end of file"
  \<^item> \<open>Unexpected_format_of_facet n\<close>: "Error: unexpected format of facet at line n"
  \<^item> \<open>Cannot_read_vertex n\<close>: "Error: cannot read vertex co-ordinates at line n"
  \<^item> \<open>Corrupted_binary_file\<close>: "Error: Corrupted binary STL file"
  \<^item> \<open>Binary_read_failed\<close>: "Error: binary STL read failed"
\<close>

datatype message =
    Cannot_read_file
  | Premature_end_of_file
  | Unexpected_format_of_facet int
  | Cannot_read_vertex int
  | Corrupted_binary_file
  | Binary_read_failed

subsection \<open>The input stream (\<^verbatim>\<open>std::istream\<close> over a file)\<close>

text \<open>
  A stream is the bytes of the file, the get position and the three state bits of
  \<^verbatim>\<open>std::ios\<close>. The operations follow the C++ standard: an input function called on a
  stream that is not good sets \<^verbatim>\<open>failbit\<close> and extracts nothing; \<^verbatim>\<open>read\<close> that
  meets the end before \<open>n\<close> bytes sets \<^verbatim>\<open>eofbit\<close> and \<^verbatim>\<open>failbit\<close>; \<^verbatim>\<open>unget\<close> clears
  \<^verbatim>\<open>eofbit\<close> first; \<^verbatim>\<open>ws\<close> that meets the end sets \<^verbatim>\<open>eofbit\<close> only.
\<close>

record istream =
  content :: "char list"
  gpos :: nat
  eofbit :: bool
  failbit :: bool
  badbit :: bool

definition open_stream :: "char list \<Rightarrow> istream" where
  "open_stream bytes =
     \<lparr>content = bytes, gpos = 0, eofbit = False, failbit = False, badbit = False\<rparr>"

definition good :: "istream \<Rightarrow> bool" where
  "good s = (\<not> eofbit s \<and> \<not> failbit s \<and> \<not> badbit s)"

definition fail :: "istream \<Rightarrow> bool" where
  "fail s = (failbit s \<or> badbit s)"

text \<open>\<^verbatim>\<open>tellg\<close>: as every input function it sets \<^verbatim>\<open>failbit\<close> on a stream that is not
  good, and then answers -1.\<close>

definition tellg :: "istream \<Rightarrow> int \<times> istream" where
  "tellg s = (if \<not> good s then (- 1, s\<lparr>failbit := True\<rparr>) else (int (gpos s), s))"

text \<open>\<^verbatim>\<open>theStream.read (buf, n)\<close>: the bytes extracted (\<^verbatim>\<open>gcount\<close> is their number) and
  the stream after it.\<close>

definition istream_read :: "nat \<Rightarrow> istream \<Rightarrow> char list \<times> istream" where
  "istream_read n s =
     (if \<not> good s then ([], s\<lparr>failbit := True\<rparr>)
      else
        let got = take n (drop (gpos s) (content s)) in
        if length got < n
        then (got, s\<lparr>gpos := gpos s + length got, eofbit := True, failbit := True\<rparr>)
        else (got, s\<lparr>gpos := gpos s + n\<rparr>))"

definition unget :: "istream \<Rightarrow> istream" where
  "unget s =
     (let s1 = s\<lparr>eofbit := False\<rparr> in
      if \<not> good s1 then s1\<lparr>failbit := True\<rparr>
      else if gpos s1 = 0 then s1\<lparr>badbit := True\<rparr>
      else s1\<lparr>gpos := gpos s1 - 1\<rparr>)"

text \<open>The characters for which \<^verbatim>\<open>isspace\<close> and \<^verbatim>\<open>isalpha\<close> hold in the C locale.\<close>

definition isspace :: "char \<Rightarrow> bool" where
  "isspace c = (let n = (of_char c :: nat) in n = 32 \<or> (9 \<le> n \<and> n \<le> 13))"

definition isalpha :: "char \<Rightarrow> bool" where
  "isalpha c = (let n = (of_char c :: nat) in (65 \<le> n \<and> n \<le> 90) \<or> (97 \<le> n \<and> n \<le> 122))"

text \<open>\<^verbatim>\<open>aStream >> std::ws\<close>.\<close>

definition ws :: "istream \<Rightarrow> istream" where
  "ws s =
     (if \<not> good s then s\<lparr>failbit := True\<rparr>
      else
        let rest = drop (gpos s) (content s);
            n = length (takeWhile isspace rest)
        in if n = length rest then s\<lparr>gpos := gpos s + n, eofbit := True\<rparr>
           else s\<lparr>gpos := gpos s + n\<rparr>)"

subsection \<open>\<^verbatim>\<open>RWStl_Reader::IsAscii\<close>\<close>

text \<open>The loop that puts back the symbols read: \<open>aByteIter\<close> runs from \<open>aNbRead\<close> down
  to 1.\<close>

primrec unget_all :: "nat \<Rightarrow> istream \<Rightarrow> istream" where
  "unget_all 0 s = s"
| "unget_all (Suc aByteIter) s = unget_all aByteIter (unget s)"

text \<open>The loop over the probed bytes: the first byte above \<^verbatim>\<open>'~'\<close>, as an unsigned
  char, decides for binary.\<close>

primrec has_non_ascii :: "char list \<Rightarrow> bool" where
  "has_non_ascii [] = False"
| "has_non_ascii (b # bs) =
     (if (of_char b :: nat) > of_char (CHR ''~'') then True else has_non_ascii bs)"

text \<open>The result is the answer, the stream after the probe and the messages sent.\<close>

definition IsAscii :: "istream \<Rightarrow> bool \<times> istream \<times> message list" where
  "IsAscii theStream =
     (let (aBuffer, s1) = istream_read THE_STL_MIN_FILE_SIZE theStream;
          aNbRead = length aBuffer
      in if fail s1 then (True, s1, [Cannot_read_file])
         else
           let s2 = unget_all aNbRead s1 in
           if aNbRead < THE_STL_MIN_FILE_SIZE then (True, s2, [])
           else if has_non_ascii aBuffer then (False, s2, [])
           else (True, s2, []))"

text \<open>The format chosen by \<^verbatim>\<open>Read\<close> (line 182): a file shorter than 134 bytes is text
  without probing.\<close>

definition Read_isAscii :: "nat \<Rightarrow> istream \<Rightarrow> bool \<times> istream \<times> message list" where
  "Read_isAscii theEnd aStream =
     (if theEnd < THE_STL_MIN_FILE_SIZE then (True, aStream, []) else IsAscii aStream)"

subsection \<open>Points, sink calls and the environment\<close>

text \<open>
  Coordinates are \<^typ>\<open>real\<close>: the rounding of the machine doubles is not represented.
  A call of the sink is recorded with its arguments and, for \<^verbatim>\<open>AddNode\<close>, the index the
  sink returned.
\<close>

type_synonym gp_XYZ = "real \<times> real \<times> real"

datatype call =
    AddNode_call gp_XYZ int
  | AddTriangle_call int int int

text \<open>
  What the reader takes from outside the sources at hand:
  \<^item> \<open>Strtod\<close>: the numeric parser of \<^verbatim>\<open>ReadVertex\<close>; the value and the number of
    characters consumed (0 when no number stands at the start);
  \<^item> \<open>float_of_bits\<close>: the value of a 32-bit pattern as an IEEE-754 single;
  \<^item> \<open>HashCode_real\<close>: the global \<^verbatim>\<open>::HashCode\<close> of a double and an upper bound, which
    hashes the bit pattern of the double;
  \<^item> \<open>sink_AddNode\<close>: the index the virtual \<^verbatim>\<open>AddNode\<close> returns, given the calls made
    so far and the point;
  \<^item> \<open>UserBreak\<close>: whether the progress indicator reports a user break at the \<open>n\<close>-th
    poll (\<^verbatim>\<open>Message_ProgressScope::More\<close> is its negation).
\<close>

record env =
  Strtod :: "string \<Rightarrow> real \<times> nat"
  float_of_bits :: "32 word \<Rightarrow> real"
  HashCode_real :: "real \<Rightarrow> nat \<Rightarrow> nat"
  sink_AddNode :: "call list \<Rightarrow> gp_XYZ \<Rightarrow> int"
  UserBreak :: "nat \<Rightarrow> bool"

subsection \<open>\<^verbatim>\<open>MergeNodeTool\<close>\<close>

text \<open>Modelled from the spec: \<^verbatim>\<open>Precision::SquareConfusion\<close> is not in the sources at
  hand; the spec gives the tolerance as 1e-14 in squared units.\<close>

definition SquareConfusion :: real where
  "SquareConfusion = 1 / 10 ^ 14"

text \<open>The constants of \<^verbatim>\<open>math.h\<close> used by the hash.\<close>

definition M_LN10 :: real where
  "M_LN10 = 230258509299404568402 / 10 ^ 20"

definition M_PI :: real where
  "M_PI = 314159265358979323846 / 10 ^ 20"

definition M_E :: real where
  "M_E = 27182818284590452354 / 10 ^ 19"

definition SquareModulus :: "gp_XYZ \<Rightarrow> real" where
  "SquareModulus p = (case p of (x, y, z) \<Rightarrow> x * x + y * y + z * z)"

definition XYZ_minus :: "gp_XYZ \<Rightarrow> gp_XYZ \<Rightarrow> gp_XYZ" where
  "XYZ_minus p q = (case (p, q) of ((x1, y1, z1), (x2, y2, z2)) \<Rightarrow> (x1 - x2, y1 - y2, z1 - z2))"

definition IsEqual :: "gp_XYZ \<Rightarrow> gp_XYZ \<Rightarrow> bool" where
  "IsEqual thePnt1 thePnt2 = (SquareModulus (XYZ_minus thePnt1 thePnt2) < SquareConfusion)"

definition HashCode :: "env \<Rightarrow> gp_XYZ \<Rightarrow> nat \<Rightarrow> nat" where
  "HashCode E thePoint theUpperBound =
     (case thePoint of (x, y, z) \<Rightarrow>
        HashCode_real E (x * M_LN10 + y * M_PI + z * M_E) theUpperBound)"

text \<open>
  Modelled from the spec: \<^verbatim>\<open>NCollection_DataMap\<close> is not in the sources at hand. The
  spec describes a hash table of fixed initial capacity, the bucket chosen by the hash
  of the point, collisions resolved by chaining with the tolerance comparison. The
  entries are kept newest first; \<open>Find\<close> answers with the first entry that lies in
  the bucket of the key and is equal to it in the sense of the hasher.
\<close>

record DataMap =
  NbBuckets :: nat
  myData :: "(gp_XYZ \<times> int) list"

definition Find :: "env \<Rightarrow> DataMap \<Rightarrow> gp_XYZ \<Rightarrow> int option" where
  "Find E m theKey =
     map_option snd
       (find (\<lambda>(k, v). HashCode E k (NbBuckets m) = HashCode E theKey (NbBuckets m)
                         \<and> IsEqual k theKey)
          (myData m))"

definition Bind :: "DataMap \<Rightarrow> gp_XYZ \<Rightarrow> int \<Rightarrow> DataMap" where
  "Bind m theKey theItem = m\<lparr>myData := (theKey, theItem) # myData m\<rparr>"

text \<open>The constructor of \<^verbatim>\<open>MergeNodeTool\<close>: a map of 1024 buckets.\<close>

definition MergeNodeTool :: DataMap where
  "MergeNodeTool = \<lparr>NbBuckets = 1024, myData = []\<rparr>"

text \<open>\<^verbatim>\<open>MergeNodeTool::AddNode\<close>, on the map of the tool and the calls made so far.\<close>

definition AddNode :: "env \<Rightarrow> gp_XYZ \<Rightarrow> DataMap \<times> call list \<Rightarrow> int \<times> DataMap \<times> call list" where
  "AddNode E aPnt st =
     (case st of (myMap, cs) \<Rightarrow>
        (case Find E myMap aPnt of
           Some anIndex \<Rightarrow> (anIndex, myMap, cs)
         | None \<Rightarrow>
             let anIndex = sink_AddNode E cs aPnt
             in (anIndex, Bind myMap aPnt anIndex, cs @ [AddNode_call aPnt anIndex])))"

text \<open>The block "add triangle", the same in \<^verbatim>\<open>ReadAscii\<close> (lines 403 to 409) and in
  \<^verbatim>\<open>ReadBinary\<close> (lines 490 to 496).\<close>

definition add_triangle ::
  "env \<Rightarrow> gp_XYZ \<times> gp_XYZ \<times> gp_XYZ \<Rightarrow> DataMap \<times> call list \<Rightarrow> DataMap \<times> call list" where
  "add_triangle E aVertex st =
     (case aVertex of (aP1, aP2, aP3) \<Rightarrow>
        (case AddNode E aP1 st of (n1, st1) \<Rightarrow>
           (case AddNode E aP2 st1 of (n2, st2) \<Rightarrow>
              (case AddNode E aP3 st2 of (n3, myMap, cs) \<Rightarrow>
                 if n1 \<noteq> n2 \<and> n2 \<noteq> n3 \<and> n3 \<noteq> n1
                 then (myMap, cs @ [AddTriangle_call n1 n2 n3])
                 else (myMap, cs)))))"

text \<open>The calls of one kind in a history.\<close>

fun is_AddTriangle :: "call \<Rightarrow> bool" where
  "is_AddTriangle (AddTriangle_call n1 n2 n3) = True"
| "is_AddTriangle (AddNode_call p i) = False"

definition count_AddTriangle :: "call list \<Rightarrow> nat" where
  "count_AddTriangle cs = length (filter is_AddTriangle cs)"

definition count_AddNode :: "call list \<Rightarrow> nat" where
  "count_AddNode cs = length (filter (\<lambda>c. \<not> is_AddTriangle c) cs)"

subsection \<open>The state of a reader\<close>

text \<open>
  Modelled from the spec: \<^verbatim>\<open>Standard_ReadLineBuffer\<close> is not in the sources at hand; the
  spec only says that lines are read through a reusable line buffer. The buffer is
  given its size at construction (\<^verbatim>\<open>THE_BUFFER_SIZE\<close> in \<^verbatim>\<open>Read\<close>); it holds the bytes
  taken from the stream and not yet handed out as lines.
\<close>

record ReadLineBuffer =
  myBufferSize :: nat
  myPending :: "char list"

text \<open>What \<^verbatim>\<open>Read\<close> and the block readers share: the stream, the line buffer, the calls
  made to the sink, the messages sent and the number of polls of the user break.\<close>

record reader =
  theStream :: istream
  theBuffer :: ReadLineBuffer
  calls :: "call list"
  msgs :: "message list"
  polls :: nat

definition SendFail :: "message \<Rightarrow> reader \<Rightarrow> reader" where
  "SendFail m r = r\<lparr>msgs := msgs r @ [m]\<rparr>"

text \<open>\<^verbatim>\<open>aPS.More()\<close>: the answer and the reader after the poll.\<close>

definition More :: "env \<Rightarrow> reader \<Rightarrow> bool \<times> reader" where
  "More E r = (\<not> UserBreak E (polls r), r\<lparr>polls := Suc (polls r)\<rparr>)"

subsection \<open>\<^verbatim>\<open>RWStl_Reader::ReadBinary\<close>\<close>

text \<open>
  Four bytes as a 32-bit pattern, the first byte lowest: what the plain casts of the
  source read on a little-endian host, and what \<^verbatim>\<open>readStlFloat\<close> composes byte by byte
  on a big-endian one. Fewer than four bytes do not occur where the reader uses it.
\<close>

fun le32 :: "char list \<Rightarrow> 32 word" where
  "le32 (b0 # b1 # b2 # b3 # rest) =
     word_of_nat (of_char b0) OR push_bit 8 (word_of_nat (of_char b1))
       OR push_bit 16 (word_of_nat (of_char b2)) OR push_bit 24 (word_of_nat (of_char b3))"
| "le32 _ = 0"

definition readStlFloat :: "env \<Rightarrow> char list \<Rightarrow> real" where
  "readStlFloat E theData = float_of_bits E (le32 theData)"

definition readStlFloatVec3 :: "env \<Rightarrow> char list \<Rightarrow> gp_XYZ" where
  "readStlFloatVec3 E theData =
     (readStlFloat E theData, readStlFloat E (drop 4 theData), readStlFloat E (drop 8 theData))"

definition THE_CHUNK_NBFACETS :: int where
  "THE_CHUNK_NBFACETS = 80"

definition aVec3Size :: nat where
  "aVec3Size = 4 * 3"

definition aFaceDataLen :: nat where
  "aFaceDataLen = aVec3Size * 4 + 2"

text \<open>The variables of the facet loop. \<open>aBuffer\<close> holds the chunk read last and
  \<open>aBufferPtr\<close> is the offset of the current facet in it.\<close>

record ReadBinary_locals =
  aNbFacetRead :: int
  aNbRead :: int
  aNbFacesInBuffer :: int
  aBuffer :: "char list"
  aBufferPtr :: nat
  aMergeTool :: DataMap

text \<open>"read more data": the chunk asked for is the smaller of 80 facets and the facets
  left by the count of the header. The result says whether the loop goes on.\<close>

definition ReadBinary_fill ::
  "int \<Rightarrow> ReadBinary_locals \<times> reader \<Rightarrow> bool \<times> ReadBinary_locals \<times> reader" where
  "ReadBinary_fill aNbFacets st =
     (case st of (L, r) \<Rightarrow>
        if aNbFacesInBuffer L \<le> 0 then
          let n = min THE_CHUNK_NBFACETS (aNbFacets - aNbFacetRead L);
              aDataToRead = nat n * aFaceDataLen
          in (case istream_read aDataToRead (theStream r) of (got, s) \<Rightarrow>
                if length got \<noteq> aDataToRead
                then (False, L\<lparr>aNbFacesInBuffer := n\<rparr>,
                      SendFail Binary_read_failed (r\<lparr>theStream := s\<rparr>))
                else (True, L\<lparr>aNbFacesInBuffer := n, aBuffer := got, aBufferPtr := 0\<rparr>,
                      r\<lparr>theStream := s\<rparr>))
        else (True, L, r))"

text \<open>The body of the loop after the chunk is there, with the increments of the
  \<^verbatim>\<open>for\<close> statement.\<close>

definition ReadBinary_facet ::
  "env \<Rightarrow> ReadBinary_locals \<times> reader \<Rightarrow> ReadBinary_locals \<times> reader" where
  "ReadBinary_facet E st =
     (case st of (L, r) \<Rightarrow>
        let aP1 = readStlFloatVec3 E (drop (aBufferPtr L + aVec3Size) (aBuffer L));
            aP2 = readStlFloatVec3 E (drop (aBufferPtr L + aVec3Size * 2) (aBuffer L));
            aP3 = readStlFloatVec3 E (drop (aBufferPtr L + aVec3Size * 3) (aBuffer L))
        in (case add_triangle E (aP1, aP2, aP3) (aMergeTool L, calls r) of (m, cs) \<Rightarrow>
              (L\<lparr>aMergeTool := m,
                 aNbFacetRead := aNbFacetRead L + 1,
                 aNbRead := aNbRead L + 1,
                 aNbFacesInBuffer := aNbFacesInBuffer L - 1,
                 aBufferPtr := aBufferPtr L + aFaceDataLen\<rparr>,
               r\<lparr>calls := cs\<rparr>)))"

lemma ReadBinary_fill_aNbFacetRead:
  "ReadBinary_fill aNbFacets (L, r) = (ok, L1, r1) \<Longrightarrow> aNbFacetRead L1 = aNbFacetRead L"
  by (auto simp: ReadBinary_fill_def Let_def split: if_splits prod.splits)

lemma ReadBinary_facet_aNbFacetRead:
  "ReadBinary_facet E (L, r) = (L1, r1) \<Longrightarrow> aNbFacetRead L1 = aNbFacetRead L + 1"
  by (auto simp: ReadBinary_facet_def Let_def split: prod.splits)

text \<open>The facet loop: it goes on while the facets read are fewer than the count and
  the progress scope reports no user break; it returns \<^verbatim>\<open>aPS.More()\<close> at its end and
  false on a short chunk.\<close>

function ReadBinary_loop ::
  "env \<Rightarrow> int \<Rightarrow> ReadBinary_locals \<times> reader \<Rightarrow> bool \<times> ReadBinary_locals \<times> reader" where
  "ReadBinary_loop E aNbFacets (L, r) =
     (if \<not> aNbFacetRead L < aNbFacets
      then (case More E r of (aMore, r') \<Rightarrow> (aMore, L, r'))
      else
        (case More E r of (aMore, r1) \<Rightarrow>
           if \<not> aMore then (case More E r1 of (aMore', r') \<Rightarrow> (aMore', L, r'))
           else
             (case ReadBinary_fill aNbFacets (L, r1) of (ok, L1, r2) \<Rightarrow>
                if \<not> ok then (False, L1, r2)
                else ReadBinary_loop E aNbFacets (ReadBinary_facet E (L1, r2)))))"
  by pat_completeness auto
termination
  by (relation "measure (\<lambda>(E, aNbFacets, L, r). nat (aNbFacets - aNbFacetRead L))")
    (auto split: prod.splits
      dest!: ReadBinary_fill_aNbFacetRead [OF sym] ReadBinary_facet_aNbFacetRead)

declare ReadBinary_loop.simps [simp del]

text \<open>\<^verbatim>\<open>ReadBinary\<close>: the header of 84 bytes, the count as the signed 32-bit integer at
  offset 80 (read by a plain cast, so little-endian on the hosts considered), a fresh
  merge tool, then the loop.\<close>

definition ReadBinary_start :: "int \<Rightarrow> ReadBinary_locals" where
  "ReadBinary_start n =
     \<lparr>aNbFacetRead = 0, aNbRead = 0, aNbFacesInBuffer = 0, aBuffer = [], aBufferPtr = 0,
      aMergeTool = MergeNodeTool\<rparr>"

definition header_aNbFacets :: "char list \<Rightarrow> int" where
  "header_aNbFacets aHeader = sint (le32 (drop 80 aHeader))"

definition ReadBinary :: "env \<Rightarrow> reader \<Rightarrow> bool \<times> reader" where
  "ReadBinary E r =
     (case istream_read THE_STL_HEADER_SIZE (theStream r) of (aHeader, s) \<Rightarrow>
        if length aHeader \<noteq> THE_STL_HEADER_SIZE
        then (False, SendFail Corrupted_binary_file (r\<lparr>theStream := s\<rparr>))
        else
          let aNbFacets = header_aNbFacets aHeader
          in (case ReadBinary_loop E aNbFacets (ReadBinary_start aNbFacets, r\<lparr>theStream := s\<rparr>) of
                (res, L, r') \<Rightarrow> (res, r')))"

subsection \<open>Reading lines\<close>

text \<open>The bytes a stream can still deliver, and the bytes a reader has not yet handed
  out as lines: those held by the line buffer followed by those of the stream.\<close>

definition avail :: "istream \<Rightarrow> char list" where
  "avail s = (if good s then drop (gpos s) (content s) else [])"

definition pend :: "reader \<Rightarrow> char list" where
  "pend r = myPending (theBuffer r) @ avail (theStream r)"

lemma istream_read_avail:
  assumes rd: "istream_read n s = (got, s')"
  shows "avail s = got @ avail s'"
proof (cases "good s")
  case False
  with rd show ?thesis
    by (auto simp: istream_read_def avail_def good_def)
next
  case True
  let ?rest = "drop (gpos s) (content s)"
  show ?thesis
  proof (cases "length (take n ?rest) < n")
    case short: True
    then have "take n ?rest = ?rest" by simp
    with True short rd show ?thesis
      by (auto simp: istream_read_def avail_def good_def Let_def)
  next
    case full: False
    have "?rest = take n ?rest @ drop (gpos s + n) (content s)"
      by (metis append_take_drop_id drop_drop add.commute)
    with True full rd show ?thesis
      by (auto simp: istream_read_def avail_def good_def Let_def)
  qed
qed

text \<open>
  Modelled from the spec: \<^verbatim>\<open>Standard_ReadLineBuffer::ReadLine\<close> is not in the sources at
  hand. A line ends at a line feed, which is not part of the line handed out. When the
  buffer holds no complete line, a chunk of the buffer size is read from the stream with
  \<^verbatim>\<open>read\<close>; when the stream delivers nothing more, what is left in the buffer is the
  last line, and \<open>None\<close> (the NULL of the source) is the answer once nothing is left.
\<close>

function ReadLine :: "reader \<Rightarrow> char list option \<times> reader" where
  "ReadLine r =
     (let b = theBuffer r in
      if CHR 0x0A \<in> set (myPending b)
      then (Some (takeWhile (\<lambda>c. c \<noteq> CHR 0x0A) (myPending b)),
            r\<lparr>theBuffer := b\<lparr>myPending := drop 1 (dropWhile (\<lambda>c. c \<noteq> CHR 0x0A) (myPending b))\<rparr>\<rparr>)
      else
        (case istream_read (myBufferSize b) (theStream r) of (chunk, s) \<Rightarrow>
           if chunk = [] then
             (if myPending b = [] then (None, r\<lparr>theStream := s\<rparr>)
              else (Some (myPending b), r\<lparr>theStream := s, theBuffer := b\<lparr>myPending := []\<rparr>\<rparr>))
           else ReadLine (r\<lparr>theStream := s, theBuffer := b\<lparr>myPending := myPending b @ chunk\<rparr>\<rparr>)))"
  by pat_completeness auto
termination
  by (relation "measure (\<lambda>r. length (avail (theStream r)))")
    (auto dest!: istream_read_avail [OF sym])

declare ReadLine.simps [simp del]

lemma ReadLine_pend:
  "ReadLine r = (res, r') \<Longrightarrow>
     length (pend r') \<le> length (pend r) \<and> (res \<noteq> None \<longrightarrow> length (pend r') < length (pend r))"
proof (induction r arbitrary: res r' rule: ReadLine.induct)
  case (1 r)
  show ?case
  proof (cases "CHR 0x0A \<in> set (myPending (theBuffer r))")
    case True
    then have "dropWhile (\<lambda>c. c \<noteq> CHR 0x0A) (myPending (theBuffer r)) \<noteq> []"
      by (simp add: dropWhile_eq_Nil_conv)
    then have "length (drop 1 (dropWhile (\<lambda>c. c \<noteq> CHR 0x0A) (myPending (theBuffer r))))
        < length (myPending (theBuffer r))"
      using length_dropWhile_le [of "\<lambda>c. c \<noteq> CHR 0x0A" "myPending (theBuffer r)"]
      by (cases "dropWhile (\<lambda>c. c \<noteq> CHR 0x0A) (myPending (theBuffer r))") auto
    with True "1.prems" show ?thesis
      by (subst (asm) ReadLine.simps) (auto simp: pend_def Let_def)
  next
    case False
    obtain chunk s where rd: "istream_read (myBufferSize (theBuffer r)) (theStream r) = (chunk, s)"
      by (cases "istream_read (myBufferSize (theBuffer r)) (theStream r)") auto
    note av = istream_read_avail [OF rd]
    show ?thesis
    proof (cases "chunk = []")
      case True
      with False rd av "1.prems" show ?thesis
        by (subst (asm) ReadLine.simps) (auto simp: pend_def Let_def split: if_splits)
    next
      case ne: False
      let ?r1 = "r\<lparr>theStream := s, theBuffer := (theBuffer r)\<lparr>myPending := myPending (theBuffer r) @ chunk\<rparr>\<rparr>"
      from False rd ne "1.prems" have "ReadLine ?r1 = (res, r')"
        by (subst (asm) ReadLine.simps) (simp add: Let_def)
      from "1.IH" [OF refl False rd [symmetric] ne this]
      show ?thesis using av by (simp add: pend_def)
    qed
  qed
qed

lemma ReadLine_others:
  "ReadLine r = (res, r') \<Longrightarrow> calls r' = calls r \<and> msgs r' = msgs r \<and> polls r' = polls r"
proof (induction r arbitrary: res r' rule: ReadLine.induct)
  case (1 r)
  obtain chunk s where rd: "istream_read (myBufferSize (theBuffer r)) (theStream r) = (chunk, s)"
    by (cases "istream_read (myBufferSize (theBuffer r)) (theStream r)") auto
  show ?case
  proof (cases "CHR 0x0A \<notin> set (myPending (theBuffer r)) \<and> chunk \<noteq> []")
    case True
    let ?r1 = "r\<lparr>theStream := s, theBuffer := (theBuffer r)\<lparr>myPending := myPending (theBuffer r) @ chunk\<rparr>\<rparr>"
    from True rd "1.prems" have "ReadLine ?r1 = (res, r')"
      by (subst (asm) ReadLine.simps) (simp add: Let_def)
    from "1.IH" [OF refl conjunct1 [OF True] rd [symmetric] conjunct2 [OF True] this]
    show ?thesis by simp
  next
    case False
    with rd "1.prems" show ?thesis
      by (subst (asm) ReadLine.simps) (auto simp: Let_def split: if_splits)
  qed
qed

subsection \<open>\<^verbatim>\<open>RWStl_Reader::ReadAscii\<close>\<close>

text \<open>The C string held by a character array: the characters before the first NUL.\<close>

definition cstr :: "char list \<Rightarrow> char list" where
  "cstr s = takeWhile (\<lambda>c. c \<noteq> CHR 0x00) s"

text \<open>\<^verbatim>\<open>tolower\<close> in the C locale, on the unsigned value of the character.\<close>

definition tolower :: "char \<Rightarrow> nat" where
  "tolower c = (let n = (of_char c :: nat) in if 65 \<le> n \<and> n \<le> 90 then n + 32 else n)"

text \<open>\<^verbatim>\<open>strncasecmp (s1, s2, n)\<close>: zero exactly when the first \<open>n\<close> characters of the two C
  strings agree without regard to case.\<close>

definition strncasecmp :: "char list \<Rightarrow> char list \<Rightarrow> nat \<Rightarrow> int" where
  "strncasecmp s1 s2 n =
     (if map tolower (take n (cstr s1)) = map tolower (take n (cstr s2)) then 0 else 1)"

definition str_starts_with :: "char list \<Rightarrow> char list \<Rightarrow> nat \<Rightarrow> bool" where
  "str_starts_with theStr theWord theN =
     (strncasecmp (dropWhile isspace (cstr theStr)) theWord theN = 0)"

text \<open>\<^verbatim>\<open>ReadVertex\<close>: the answer and the three values. The pointer \<open>aEnd\<close> differs from
  \<open>aStr\<close> after the third conversion exactly when that conversion consumed something.\<close>

definition ReadVertex :: "env \<Rightarrow> char list \<Rightarrow> bool \<times> gp_XYZ" where
  "ReadVertex E theStr =
     (let aStr = dropWhile (\<lambda>c. isspace c \<or> isalpha c) (cstr theStr) in
      case Strtod E aStr of (theX, n1) \<Rightarrow>
        (let aStr2 = drop n1 aStr in
         case Strtod E aStr2 of (theY, n2) \<Rightarrow>
           (let aStr3 = drop n2 aStr2 in
            case Strtod E aStr3 of (theZ, n3) \<Rightarrow> (n3 \<noteq> 0, (theX, theY, theZ)))))"

definition aStepB :: int where
  "aStepB = 1024 * 1024"

text \<open>The variables of the loop of \<^verbatim>\<open>ReadAscii\<close>. The line counter \<open>aNbLine\<close> is a C
  \<^verbatim>\<open>int\<close>: 32 bits, read as a signed number where a message prints it. Its additions wrap
  here, as on the two's complement hosts considered; the language leaves the overflow
  undefined, and the properties that name a line number are stated for the files whose
  line numbers fit.\<close>

record ReadAscii_locals =
  aMergeToolA :: DataMap
  aNbLine :: "32 word"
  aProgressPos :: int

datatype vertex_line = Vertex_EOF | Vertex_unreadable | Vertex gp_XYZ

text \<open>One round of the loop over the three vertex lines.\<close>

definition ReadAscii_vertex :: "env \<Rightarrow> reader \<Rightarrow> vertex_line \<times> reader" where
  "ReadAscii_vertex E r =
     (case ReadLine r of
        (None, r1) \<Rightarrow> (Vertex_EOF, r1)
      | (Some aLine, r1) \<Rightarrow>
          (case ReadVertex E aLine of (ok, aReadVertex) \<Rightarrow>
             if \<not> ok then (Vertex_unreadable, r1) else (Vertex aReadVertex, r1)))"

datatype outcome = Continue | Break | Return_false

text \<open>The part of the loop body from the vertex lines on.\<close>

definition ReadAscii_triangle ::
  "env \<Rightarrow> ReadAscii_locals \<times> reader \<Rightarrow> outcome \<times> ReadAscii_locals \<times> reader" where
  "ReadAscii_triangle E st =
     (case st of (L, r) \<Rightarrow>
        (case ReadAscii_vertex E r of
           (Vertex_EOF, r1) \<Rightarrow> (Break, L, r1)
         | (Vertex_unreadable, r1) \<Rightarrow> (Return_false, L, SendFail (Cannot_read_vertex (sint (aNbLine L))) r1)
         | (Vertex v0, r1) \<Rightarrow>
        (case ReadAscii_vertex E r1 of
           (Vertex_EOF, r2) \<Rightarrow> (Break, L, r2)
         | (Vertex_unreadable, r2) \<Rightarrow> (Return_false, L, SendFail (Cannot_read_vertex (sint (aNbLine L))) r2)
         | (Vertex v1, r2) \<Rightarrow>
        (case ReadAscii_vertex E r2 of
           (Vertex_EOF, r3) \<Rightarrow> (Break, L, r3)
         | (Vertex_unreadable, r3) \<Rightarrow> (Return_false, L, SendFail (Cannot_read_vertex (sint (aNbLine L))) r3)
         | (Vertex v2, r3) \<Rightarrow>
             (case add_triangle E (v0, v1, v2) (aMergeToolA L, calls r3) of (m, cs) \<Rightarrow>
                (case ReadLine (r3\<lparr>calls := cs\<rparr>) of (endloop, r4) \<Rightarrow>
                   (case ReadLine r4 of (endfacet, r5) \<Rightarrow>
                      (Continue, L\<lparr>aMergeToolA := m, aNbLine := aNbLine L + 5 + 2\<rparr>, r5))))))))"

text \<open>The start of the loop body: the progress scope is advanced when the position of
  the stream has passed \<open>aProgressPos\<close>; only the variable is kept here.\<close>

definition ReadAscii_progress :: "ReadAscii_locals \<times> reader \<Rightarrow> ReadAscii_locals \<times> reader" where
  "ReadAscii_progress st =
     (case st of (L, r) \<Rightarrow>
        (case tellg (theStream r) of (aPos, s) \<Rightarrow>
           (if aPos > aProgressPos L then L\<lparr>aProgressPos := aProgressPos L + aStepB\<rparr> else L,
            r\<lparr>theStream := s\<rparr>)))"

text \<open>The lines "facet normal" and "outer loop", then the vertex lines.\<close>

definition ReadAscii_keywords ::
  "env \<Rightarrow> ReadAscii_locals \<times> reader \<Rightarrow> outcome \<times> ReadAscii_locals \<times> reader" where
  "ReadAscii_keywords E st =
     (case st of (L, r) \<Rightarrow>
        (case ReadLine r of
           (None, r1) \<Rightarrow> (Return_false, L, SendFail Premature_end_of_file r1)
         | (Some aLine, r1) \<Rightarrow>
             if str_starts_with aLine ''endsolid'' 8 then (Break, L, r1)
             else if \<not> str_starts_with aLine ''facet'' 5
             then (Return_false, L, SendFail (Unexpected_format_of_facet (sint (aNbLine L + 1))) r1)
             else
               (case ReadLine r1 of
                  (None, r2) \<Rightarrow>
                    (Return_false, L, SendFail (Unexpected_format_of_facet (sint (aNbLine L + 1))) r2)
                | (Some aLine2, r2) \<Rightarrow>
                    if \<not> str_starts_with aLine2 ''outer'' 5
                    then (Return_false, L,
                          SendFail (Unexpected_format_of_facet (sint (aNbLine L + 1))) r2)
                    else ReadAscii_triangle E (L, r2))))"

text \<open>The body of the loop of \<^verbatim>\<open>ReadAscii\<close>.\<close>

definition ReadAscii_facet ::
  "env \<Rightarrow> ReadAscii_locals \<times> reader \<Rightarrow> outcome \<times> ReadAscii_locals \<times> reader" where
  "ReadAscii_facet E st = ReadAscii_keywords E (ReadAscii_progress st)"

lemma tellg_avail: "tellg s = (p, s') \<Longrightarrow> avail s' = avail s"
  by (auto simp: tellg_def avail_def good_def split: if_splits)

lemma pend_SendFail [simp]: "pend (SendFail m r) = pend r"
  by (simp add: pend_def SendFail_def)

lemma pend_calls_update [simp]: "pend (r\<lparr>calls := cs\<rparr>) = pend r"
  by (simp add: pend_def)

lemma pend_polls_update [simp]: "pend (r\<lparr>polls := n\<rparr>) = pend r"
  by (simp add: pend_def)

lemma ReadLine_pend_le: "ReadLine r = (res, r') \<Longrightarrow> length (pend r') \<le> length (pend r)"
  by (simp add: ReadLine_pend)

lemma ReadLine_pend_less: "ReadLine r = (Some l, r') \<Longrightarrow> length (pend r') < length (pend r)"
  using ReadLine_pend [of r "Some l" r'] by simp

lemma ReadAscii_vertex_pend:
  "ReadAscii_vertex E r = (v, r') \<Longrightarrow> length (pend r') \<le> length (pend r)"
  by (auto simp: ReadAscii_vertex_def split: prod.splits option.splits if_splits
      dest: ReadLine_pend_le)

lemma ReadAscii_triangle_pend:
  assumes "ReadAscii_triangle E (L, r) = (out, L', r')"
  shows "length (pend r') \<le> length (pend r)"
proof -
  obtain v0 r1 where a: "ReadAscii_vertex E r = (v0, r1)"
    by (cases "ReadAscii_vertex E r") auto
  obtain v1 r2 where b: "ReadAscii_vertex E r1 = (v1, r2)"
    by (cases "ReadAscii_vertex E r1") auto
  obtain v2 r3 where c: "ReadAscii_vertex E r2 = (v2, r3)"
    by (cases "ReadAscii_vertex E r2") auto
  note le = ReadAscii_vertex_pend [OF a] ReadAscii_vertex_pend [OF b] ReadAscii_vertex_pend [OF c]
  show ?thesis
    using assms a b c le
    by (auto simp: ReadAscii_triangle_def split: vertex_line.splits prod.splits
        dest!: ReadLine_pend_le)
qed

lemma ReadAscii_progress_pend:
  "ReadAscii_progress (L, r) = (L', r') \<Longrightarrow> pend r' = pend r"
  by (auto simp: ReadAscii_progress_def pend_def split: prod.splits dest: tellg_avail)

lemma ReadAscii_keywords_pend:
  assumes "ReadAscii_keywords E (L, r) = (out, L', r')"
  shows "length (pend r') \<le> length (pend r)
         \<and> (out = Continue \<longrightarrow> length (pend r') < length (pend r))"
proof -
  obtain l1 r1 where a: "ReadLine r = (l1, r1)"
    by (cases "ReadLine r") auto
  show ?thesis
  proof (cases l1)
    case None
    with assms a ReadLine_pend_le [OF a] show ?thesis
      by (auto simp: ReadAscii_keywords_def)
  next
    case (Some aLine)
    with a have lt: "length (pend r1) < length (pend r)"
      using ReadLine_pend_less [of r aLine r1] by simp
    obtain l2 r2 where b: "ReadLine r1 = (l2, r2)"
      by (cases "ReadLine r1") auto
    note le2 = ReadLine_pend_le [OF b]
    show ?thesis
      using assms a b Some lt le2
      by (auto simp: ReadAscii_keywords_def split: if_splits option.splits
          dest!: ReadAscii_triangle_pend)
  qed
qed

lemma ReadAscii_facet_pend:
  assumes "ReadAscii_facet E (L, r) = (out, L', r')"
  shows "length (pend r') \<le> length (pend r)
         \<and> (out = Continue \<longrightarrow> length (pend r') < length (pend r))"
proof -
  obtain L0 r0 where p: "ReadAscii_progress (L, r) = (L0, r0)"
    by (cases "ReadAscii_progress (L, r)") auto
  with assms have "ReadAscii_keywords E (L0, r0) = (out, L', r')"
    by (simp add: ReadAscii_facet_def)
  from ReadAscii_keywords_pend [OF this] ReadAscii_progress_pend [OF p]
  show ?thesis by simp
qed

text \<open>The loop of \<^verbatim>\<open>ReadAscii\<close>: \<^verbatim>\<open>while (aPS.More())\<close>, and \<^verbatim>\<open>return aPS.More()\<close> after
  it.\<close>

function ReadAscii_loop ::
  "env \<Rightarrow> ReadAscii_locals \<times> reader \<Rightarrow> bool \<times> ReadAscii_locals \<times> reader" where
  "ReadAscii_loop E (L, r) =
     (case More E r of (aMore, r1) \<Rightarrow>
        if \<not> aMore then (case More E r1 of (aMore', r') \<Rightarrow> (aMore', L, r'))
        else
          (case ReadAscii_facet E (L, r1) of
             (Continue, L1, r2) \<Rightarrow> ReadAscii_loop E (L1, r2)
           | (Break, L1, r2) \<Rightarrow> (case More E r2 of (aMore', r') \<Rightarrow> (aMore', L1, r'))
           | (Return_false, L1, r2) \<Rightarrow> (False, L1, r2)))"
  by pat_completeness auto
termination
  by (relation "measure (\<lambda>(E, L, r). length (pend r))")
    (auto simp: More_def dest!: ReadAscii_facet_pend [OF sym])

declare ReadAscii_loop.simps [simp del]

text \<open>\<^verbatim>\<open>ReadAscii\<close>: the position at the start, the header line, a fresh merge tool, then
  the loop.\<close>

definition ReadAscii :: "env \<Rightarrow> reader \<Rightarrow> bool \<times> reader" where
  "ReadAscii E r =
     (case tellg (theStream r) of (aStartPos, s) \<Rightarrow>
        (case ReadLine (r\<lparr>theStream := s\<rparr>) of
           (None, r1) \<Rightarrow> (False, SendFail Premature_end_of_file r1)
         | (Some aLine, r1) \<Rightarrow>
             (case ReadAscii_loop E
                     (\<lparr>aMergeToolA = MergeNodeTool, aNbLine = 1,
                       aProgressPos = aStartPos + aStepB\<rparr>, r1) of
                (res, L, r') \<Rightarrow> (res, r'))))"

lemma ReadAscii_loop_pend:
  "ReadAscii_loop E (L, r) = (res, L', r') \<Longrightarrow> length (pend r') \<le> length (pend r)"
proof (induction E "(L, r)" arbitrary: L r rule: ReadAscii_loop.induct)
  case (1 E L r)
  obtain out L1 r2 where f: "ReadAscii_facet E (L, r\<lparr>polls := Suc (polls r)\<rparr>) = (out, L1, r2)"
    by (cases "ReadAscii_facet E (L, r\<lparr>polls := Suc (polls r)\<rparr>)") auto
  have le: "length (pend r2) \<le> length (pend r)"
    using ReadAscii_facet_pend [OF f] by simp
  show ?case
  proof (cases "\<not> UserBreak E (polls r) \<and> out = Continue")
    case True
    with f "1.prems" have "ReadAscii_loop E (L1, r2) = (res, L', r')"
      by (subst (asm) ReadAscii_loop.simps) (simp add: More_def)
    from "1.hyps" [OF _ _ _ _ _ this] True f have "length (pend r') \<le> length (pend r2)"
      by (simp add: More_def)
    with le show ?thesis by simp
  next
    case False
    with f le "1.prems" show ?thesis
      by (subst (asm) ReadAscii_loop.simps)
        (auto simp: More_def split: if_splits outcome.splits)
  qed
qed

lemma ReadAscii_pend:
  assumes "ReadAscii E r = (True, r')"
  shows "length (pend r') < length (pend r)"
proof -
  obtain p s where t: "tellg (theStream r) = (p, s)"
    by (cases "tellg (theStream r)") auto
  have p0: "pend (r\<lparr>theStream := s\<rparr>) = pend r"
    using tellg_avail [OF t] by (simp add: pend_def)
  obtain l1 r1 where a: "ReadLine (r\<lparr>theStream := s\<rparr>) = (l1, r1)"
    by (cases "ReadLine (r\<lparr>theStream := s\<rparr>)") auto
  from assms t a obtain aLine where l1: "l1 = Some aLine"
    by (cases l1) (auto simp: ReadAscii_def)
  have lt: "length (pend r1) < length (pend r)"
    using ReadLine_pend_less [of "r\<lparr>theStream := s\<rparr>" aLine r1] a l1 p0 by simp
  from assms t a l1 show ?thesis
    using lt by (auto simp: ReadAscii_def split: prod.splits dest!: ReadAscii_loop_pend)
qed

subsection \<open>\<^verbatim>\<open>RWStl_Reader::Read\<close>\<close>

lemma pend_theStream_update:
  "pend (r\<lparr>theStream := s\<rparr>) = myPending (theBuffer r) @ avail s"
  by (simp add: pend_def)

lemma ReadBinary_fill_pend:
  "ReadBinary_fill n (L, r) = (ok, L', r') \<Longrightarrow> length (pend r') \<le> length (pend r)"
  by (auto simp: ReadBinary_fill_def Let_def pend_def SendFail_def
      split: if_splits prod.splits dest!: istream_read_avail)

lemma ReadBinary_facet_pend:
  "ReadBinary_facet E (L, r) = (L', r') \<Longrightarrow> pend r' = pend r"
  by (auto simp: ReadBinary_facet_def Let_def split: prod.splits)

lemma ReadBinary_loop_pend:
  "ReadBinary_loop E n (L, r) = (res, L', r') \<Longrightarrow> length (pend r') \<le> length (pend r)"
proof (induction E n "(L, r)" arbitrary: L r rule: ReadBinary_loop.induct)
  case (1 E n L r)
  obtain ok L1 r2 where f: "ReadBinary_fill n (L, r\<lparr>polls := Suc (polls r)\<rparr>) = (ok, L1, r2)"
    by (cases "ReadBinary_fill n (L, r\<lparr>polls := Suc (polls r)\<rparr>)") auto
  have le: "length (pend r2) \<le> length (pend r)"
    using ReadBinary_fill_pend [OF f] by simp
  obtain L2 r3 where g: "ReadBinary_facet E (L1, r2) = (L2, r3)"
    by (cases "ReadBinary_facet E (L1, r2)") auto
  show ?case
  proof (cases "aNbFacetRead L < n \<and> \<not> UserBreak E (polls r) \<and> ok")
    case True
    with f g "1.prems" have "ReadBinary_loop E n (L2, r3) = (res, L', r')"
      by (subst (asm) ReadBinary_loop.simps) (simp add: More_def)
    from "1.hyps" [OF _ _ _ _ _ _ _ this] True f g
    have "length (pend r') \<le> length (pend r3)"
      by (simp add: More_def)
    with le ReadBinary_facet_pend [OF g] show ?thesis by simp
  next
    case False
    with f le "1.prems" show ?thesis
      by (subst (asm) ReadBinary_loop.simps)
        (auto simp: More_def split: if_splits)
  qed
qed

lemma ReadBinary_pend:
  assumes "ReadBinary E r = (True, r')"
  shows "length (pend r') < length (pend r)"
proof -
  obtain h s where rd: "istream_read THE_STL_HEADER_SIZE (theStream r) = (h, s)"
    by (cases "istream_read THE_STL_HEADER_SIZE (theStream r)") auto
  from assms rd have len: "length h = 84"
    by (auto simp: ReadBinary_def THE_STL_HEADER_SIZE_def split: if_splits)
  have "length (pend (r\<lparr>theStream := s\<rparr>)) < length (pend r)"
    using istream_read_avail [OF rd] len by (simp add: pend_def)
  with assms rd len show ?thesis
    by (auto simp: ReadBinary_def THE_STL_HEADER_SIZE_def Let_def split: prod.splits
        dest!: ReadBinary_loop_pend)
qed

lemma ws_avail: "length (avail (ws s)) \<le> length (avail s)"
  by (auto simp: ws_def avail_def good_def Let_def)

lemma pend_ws: "length (pend (r\<lparr>theStream := ws (theStream r)\<rparr>)) \<le> length (pend r)"
  using ws_avail [of "theStream r"] by (simp add: pend_def)

text \<open>The loop of \<^verbatim>\<open>Read\<close> over the blocks of the stream; the format is fixed for the
  call.\<close>

function Read_loop :: "env \<Rightarrow> bool \<Rightarrow> reader \<Rightarrow> reader" where
  "Read_loop E isAscii r =
     (if \<not> good (theStream r) then r
      else
        (case (if isAscii then ReadAscii E r else ReadBinary E r) of (ok, r1) \<Rightarrow>
           if \<not> ok then r1
           else Read_loop E isAscii (r1\<lparr>theStream := ws (theStream r1)\<rparr>)))"
  by pat_completeness auto
termination
  by (relation "measure (\<lambda>(E, isAscii, r). length (pend r))")
    (auto split: if_splits dest!: ReadAscii_pend [OF sym] ReadBinary_pend [OF sym]
      intro: le_less_trans [OF pend_ws])

declare Read_loop.simps [simp del]

text \<open>\<^verbatim>\<open>Read\<close>: \<open>None\<close> is a file that cannot be opened. The result is the answer, the
  calls made to the sink and the messages sent.\<close>

definition Read :: "env \<Rightarrow> char list option \<Rightarrow> bool \<times> call list \<times> message list" where
  "Read E theFile =
     (case theFile of
        None \<Rightarrow> (False, [], [])
      | Some bytes \<Rightarrow>
          (case Read_isAscii (length bytes) (open_stream bytes) of (isAscii, s, ms) \<Rightarrow>
             let r = Read_loop E isAscii
                       \<lparr>theStream = s,
                        theBuffer = \<lparr>myBufferSize = THE_BUFFER_SIZE, myPending = []\<rparr>,
                        calls = [], msgs = ms, polls = 0\<rparr>
             in (\<not> fail (theStream r), calls r, msgs r)))"

subsection \<open>Well-formed text, to state the properties\<close>

text \<open>
  Lines with their line feeds; the seven lines of a facet that the text reader accepts
  (the keyword lines begin as \<^verbatim>\<open>ReadAscii\<close> asks, the vertex lines are readable, and
  nothing is asked of the two lines that close the facet); the vertices of such a facet;
  and the sink calls that the facets of a block produce in turn.
\<close>

definition unlines_nl :: "string list \<Rightarrow> string" where
  "unlines_nl ls = concat (map (\<lambda>l. l @ [CHR 0x0A]) ls)"

fun good_facet :: "env \<Rightarrow> string list \<Rightarrow> bool" where
  "good_facet E [aFacet, aOuter, aV0, aV1, aV2, aEndloop, aEndfacet] =
     (CHR 0x0A \<notin> set aFacet \<and> CHR 0x0A \<notin> set aOuter \<and> CHR 0x0A \<notin> set aV0
      \<and> CHR 0x0A \<notin> set aV1 \<and> CHR 0x0A \<notin> set aV2 \<and> CHR 0x0A \<notin> set aEndloop
      \<and> CHR 0x0A \<notin> set aEndfacet
      \<and> \<not> str_starts_with aFacet ''endsolid'' 8 \<and> str_starts_with aFacet ''facet'' 5
      \<and> str_starts_with aOuter ''outer'' 5
      \<and> fst (ReadVertex E aV0) \<and> fst (ReadVertex E aV1) \<and> fst (ReadVertex E aV2))"
| "good_facet E ls = False"

fun facet_vertices :: "env \<Rightarrow> string list \<Rightarrow> gp_XYZ \<times> gp_XYZ \<times> gp_XYZ" where
  "facet_vertices E [aFacet, aOuter, aV0, aV1, aV2, aEndloop, aEndfacet] =
     (snd (ReadVertex E aV0), snd (ReadVertex E aV1), snd (ReadVertex E aV2))"
| "facet_vertices E ls = ((0, 0, 0), (0, 0, 0), (0, 0, 0))"

fun decode_facets :: "env \<Rightarrow> string list list \<Rightarrow> DataMap \<times> call list \<Rightarrow> DataMap \<times> call list" where
  "decode_facets E [] st = st"
| "decode_facets E (ls # fs) st = decode_facets E fs (add_triangle E (facet_vertices E ls) st)"

text \<open>
  The same for a binary block: the three points of the 50 bytes of a facet (the normal
  is skipped), and the sink calls that \<open>n\<close> facets in a row produce in turn.
\<close>

definition facet_points :: "env \<Rightarrow> char list \<Rightarrow> gp_XYZ \<times> gp_XYZ \<times> gp_XYZ" where
  "facet_points E bs =
     (readStlFloatVec3 E (drop aVec3Size bs), readStlFloatVec3 E (drop (aVec3Size * 2) bs),
      readStlFloatVec3 E (drop (aVec3Size * 3) bs))"

fun decode_binary :: "env \<Rightarrow> nat \<Rightarrow> char list \<Rightarrow> DataMap \<times> call list \<Rightarrow> DataMap \<times> call list" where
  "decode_binary E 0 bs st = st"
| "decode_binary E (Suc n) bs st =
     decode_binary E n (drop aFaceDataLen bs) (add_triangle E (facet_points E bs) st)"

subsection \<open>The indices of a block\<close>

text \<open>
  The indices that the sink returned in a history; a history in which every triangle
  uses indices of \<open>K\<close> or indices that the sink returned earlier in the history; and what
  holds of the merge tool and the history during a block that began at the history
  \<open>cs0\<close>: the history extends \<open>cs0\<close>, and the indices of the map and those of \<open>ns\<close> were
  returned by the sink since.
\<close>

fun node_indices :: "call list \<Rightarrow> int list" where
  "node_indices [] = []"
| "node_indices (AddNode_call p i # cs) = i # node_indices cs"
| "node_indices (AddTriangle_call n1 n2 n3 # cs) = node_indices cs"

fun triangles_known :: "int set \<Rightarrow> call list \<Rightarrow> bool" where
  "triangles_known K [] = True"
| "triangles_known K (AddNode_call p i # cs) = triangles_known (insert i K) cs"
| "triangles_known K (AddTriangle_call n1 n2 n3 # cs) =
     (n1 \<in> K \<and> n2 \<in> K \<and> n3 \<in> K \<and> triangles_known K cs)"

definition block_inv :: "call list \<Rightarrow> int set \<Rightarrow> DataMap \<times> call list \<Rightarrow> bool" where
  "block_inv cs0 ns st =
     (case st of (m, cs) \<Rightarrow>
        \<exists>new. cs = cs0 @ new \<and> snd ` set (myData m) \<union> ns \<subseteq> set (node_indices new)
               \<and> triangles_known {} new)"

subsection \<open>Readers that have not met the end of the stream\<close>

text \<open>
  What every step of the text reader keeps between a reader and the reader after the
  step, for a line buffer of positive size: the size of the buffer, no more bytes left
  than before, and a good stream as long as the bytes left are at least one chunk of
  the buffer (no \<^verbatim>\<open>read\<close> came up short).
\<close>

definition keeps :: "reader \<Rightarrow> reader \<Rightarrow> bool" where
  "keeps r r' =
     (0 < myBufferSize (theBuffer r) \<longrightarrow>
        myBufferSize (theBuffer r') = myBufferSize (theBuffer r)
        \<and> length (pend r') \<le> length (pend r)
        \<and> (good (theStream r) \<and> myBufferSize (theBuffer r) \<le> length (pend r')
             \<longrightarrow> good (theStream r')))"

subsection \<open>An environment and inputs for the concrete cases\<close>

text \<open>
  The concrete cases below run the reader in one environment: a numeric parser for
  unsigned decimal integers after optional white space, the value of a finite IEEE-754
  single, a hash into three buckets by the size of its argument, a sink that numbers
  the nodes from 0 in the order of their registration, and no user break.
\<close>

definition isdigit :: "char \<Rightarrow> bool" where
  "isdigit c = (let n = (of_char c :: nat) in 48 \<le> n \<and> n \<le> 57)"

definition example_Strtod :: "string \<Rightarrow> real \<times> nat" where
  "example_Strtod s =
     (let sp = takeWhile isspace s;
          ds = takeWhile isdigit (drop (length sp) s)
      in if ds = [] then (0, 0)
         else (real (foldl (\<lambda>a c. 10 * a + (of_char c - 48)) 0 ds), length sp + length ds))"

definition ieee_single :: "32 word \<Rightarrow> real" where
  "ieee_single w =
     (let e = unat (drop_bit 23 w AND 0xFF);
          m = unat (w AND 0x7FFFFF);
          sg = (if bit w 31 then - 1 else 1)
      in if e = 0 then sg * real m / 2 ^ 149
         else sg * (2 ^ 23 + real m) * 2 ^ e / 2 ^ 150)"

definition example_hash :: "real \<Rightarrow> nat \<Rightarrow> nat" where
  "example_hash x ub = (if x \<le> 0 then 1 else if x < 1 then 2 else 3)"

definition example_sink :: "call list \<Rightarrow> gp_XYZ \<Rightarrow> int" where
  "example_sink cs p = int (count_AddNode cs)"

definition example_env :: env where
  "example_env =
     \<lparr>Strtod = example_Strtod, float_of_bits = ieee_single, HashCode_real = example_hash,
      sink_AddNode = example_sink, UserBreak = (\<lambda>n. False)\<rparr>"

text \<open>A reader at the start of a stream, with a line buffer of the given size.\<close>

definition reader_on :: "nat \<Rightarrow> char list \<Rightarrow> reader" where
  "reader_on n bytes =
     \<lparr>theStream = open_stream bytes, theBuffer = \<lparr>myBufferSize = n, myPending = []\<rparr>,
      calls = [], msgs = [], polls = 0\<rparr>"

text \<open>Facets for the concrete cases: a triangle, the same with two lines of junk where
  the facet is closed, and a facet with a repeated vertex.\<close>

definition example_facet :: "string list" where
  "example_facet =
     [''facet normal 0 0 1'', ''outer loop'', ''vertex 0 0 0'', ''vertex 1 0 0'',
      ''vertex 0 1 0'', ''endloop'', ''endfacet'']"

definition example_facet_junk :: "string list" where
  "example_facet_junk =
     [''facet normal 0 0 1'', ''outer loop'', ''vertex 0 0 0'', ''vertex 1 0 0'',
      ''vertex 0 1 0'', ''junk'', ''more junk'']"

definition example_facet_flat :: "string list" where
  "example_facet_flat =
     [''FACET'', ''  outer'', ''vertex 1 0 0'', ''vertex 1 0 0'', ''vertex 0 1 0'',
      ''endloop'', ''endfacet'']"

text \<open>The 50 bytes of a binary facet with the vertices (0, 0, 0), (1, 0, 0) and
  (0, 1, 0): the normal, the three points as IEEE-754 singles, the attribute.\<close>

definition example_binary_facet :: "char list" where
  "example_binary_facet =
     [CHR 0x00, CHR 0x00, CHR 0x00, CHR 0x00, CHR 0x00, CHR 0x00, CHR 0x00, CHR 0x00,
      CHR 0x00, CHR 0x00, CHR 0x00, CHR 0x00, CHR 0x00, CHR 0x00, CHR 0x00, CHR 0x00,
      CHR 0x00, CHR 0x00, CHR 0x00, CHR 0x00, CHR 0x00, CHR 0x00, CHR 0x00, CHR 0x00,
      CHR 0x00, CHR 0x00, CHR 0x80, CHR 0x3F, CHR 0x00, CHR 0x00, CHR 0x00, CHR 0x00,
      CHR 0x00, CHR 0x00, CHR 0x00, CHR 0x00, CHR 0x00, CHR 0x00, CHR 0x00, CHR 0x00,
      CHR 0x00, CHR 0x00, CHR 0x80, CHR 0x3F, CHR 0x00, CHR 0x00, CHR 0x00, CHR 0x00,
      CHR 0x00, CHR 0x00]"

text \<open>The same facet with \<open>(1 / 2 ^ 27, 0, 0)\<close> as its first vertex, and a binary block
  of the two facets: 80 bytes of header, the count 2, the facets.\<close>

definition example_binary_facet_near :: "char list" where
  "example_binary_facet_near =
     [CHR 0x00, CHR 0x00, CHR 0x00, CHR 0x00, CHR 0x00, CHR 0x00, CHR 0x00, CHR 0x00,
      CHR 0x00, CHR 0x00, CHR 0x00, CHR 0x00, CHR 0x00, CHR 0x00, CHR 0x00, CHR 0x32,
      CHR 0x00, CHR 0x00, CHR 0x00, CHR 0x00, CHR 0x00, CHR 0x00, CHR 0x00, CHR 0x00,
      CHR 0x00, CHR 0x00, CHR 0x80, CHR 0x3F, CHR 0x00, CHR 0x00, CHR 0x00, CHR 0x00,
      CHR 0x00, CHR 0x00, CHR 0x00, CHR 0x00, CHR 0x00, CHR 0x00, CHR 0x00, CHR 0x00,
      CHR 0x00, CHR 0x00, CHR 0x80, CHR 0x3F, CHR 0x00, CHR 0x00, CHR 0x00, CHR 0x00,
      CHR 0x00, CHR 0x00]"

definition example_binary_block :: "char list" where
  "example_binary_block =
     replicate 80 (CHR 0x00) @ [CHR 0x02, CHR 0x00, CHR 0x00, CHR 0x00]
     @ example_binary_facet @ example_binary_facet_near"

section \<open>Properties\<close>

subsection \<open>Format detection\<close>

lemma has_non_ascii_iff:
  "has_non_ascii bs = (\<exists>b \<in> set bs. (126::nat) < of_char b)"
  by (induction bs) auto

lemma unget_all_good:
  "good s \<Longrightarrow> n \<le> gpos s \<Longrightarrow> unget_all n s = s\<lparr>gpos := gpos s - n\<rparr>"
proof (induction n arbitrary: s)
  case 0
  then show ?case by simp
next
  case (Suc n)
  from Suc.prems have u: "unget s = s\<lparr>gpos := gpos s - 1\<rparr>"
    by (simp add: unget_def good_def Let_def)
  have "unget_all n (unget s) = (unget s)\<lparr>gpos := gpos (unget s) - n\<rparr>"
    using Suc.prems by (intro Suc.IH) (simp_all add: u good_def)
  then show ?case by (simp add: u)
qed

lemma read_probe_full:
  assumes "134 \<le> length bytes"
  shows "istream_read 134 (open_stream bytes) =
           (take 134 bytes, (open_stream bytes)\<lparr>gpos := 134\<rparr>)"
  using assms
  by (simp add: istream_read_def open_stream_def good_def Let_def)

lemma IsAscii_probe:
  assumes "134 \<le> length bytes"
  shows "IsAscii (open_stream bytes) =
           (\<not> has_non_ascii (take 134 bytes), open_stream bytes, [])"
proof -
  let ?s1 = "(open_stream bytes)\<lparr>gpos := 134\<rparr>"
  have g: "good ?s1" "\<not> fail ?s1"
    by (simp_all add: good_def fail_def open_stream_def)
  have "unget_all 134 ?s1 = ?s1\<lparr>gpos := gpos ?s1 - 134\<rparr>"
    by (rule unget_all_good) (simp_all add: g)
  then have restored: "unget_all 134 ?s1 = open_stream bytes"
    by (simp add: open_stream_def)
  show ?thesis
    using assms g restored
    by (simp add: IsAscii_def read_probe_full THE_STL_MIN_FILE_SIZE_def
        THE_STL_HEADER_SIZE_def THE_STL_SIZEOF_FACET_def Let_def)
qed

text \<open>
  C3. A stream of at least 134 bytes is classified as text when none of its first 134
  bytes is above 0x7E as an unsigned value, and as binary when one of them is; the probe
  leaves the stream where it was and sends no message.
\<close>

theorem Read_isAscii_first_134_bytes:
  assumes "134 \<le> length bytes"
  shows "Read_isAscii (length bytes) (open_stream bytes) =
           (if \<exists>b \<in> set (take 134 bytes). (of_char b :: nat) > 126 then False else True,
            open_stream bytes, [])"
  using assms
  by (simp add: Read_isAscii_def IsAscii_probe has_non_ascii_iff
      THE_STL_MIN_FILE_SIZE_def THE_STL_HEADER_SIZE_def THE_STL_SIZEOF_FACET_def)

theorem Read_isAscii_first_134_bytes_witness:
  "Read_isAscii (length (replicate 133 (CHR ''a'') @ [CHR 0xFF]))
       (open_stream (replicate 133 (CHR ''a'') @ [CHR 0xFF])) =
     (False, open_stream (replicate 133 (CHR ''a'') @ [CHR 0xFF]), [])
   \<and> Read_isAscii (length (replicate 134 (CHR ''a''))) (open_stream (replicate 134 (CHR ''a''))) =
     (True, open_stream (replicate 134 (CHR ''a'')), [])"
  using Read_isAscii_first_134_bytes [of "replicate 133 (CHR ''a'') @ [CHR 0xFF]"]
    Read_isAscii_first_134_bytes [of "replicate 134 (CHR ''a'')"]
  by simp

subsection \<open>Degenerate facets\<close>

lemma AddNode_calls:
  "AddNode E p (m, cs) = (n, m', cs') \<Longrightarrow>
     cs' = cs \<or> cs' = cs @ [AddNode_call p n]"
  by (auto simp: AddNode_def Let_def split: option.splits)

lemma AddNode_count_AddTriangle:
  "AddNode E p (m, cs) = (n, m', cs') \<Longrightarrow> count_AddTriangle cs' = count_AddTriangle cs"
  by (auto simp: count_AddTriangle_def dest: AddNode_calls)

lemma ReadAscii_vertex_others:
  "ReadAscii_vertex E r = (v, r') \<Longrightarrow> calls r' = calls r \<and> msgs r' = msgs r"
  by (auto simp: ReadAscii_vertex_def split: prod.splits option.splits if_splits
      dest: ReadLine_others)

lemma add_triangle_resolved:
  assumes "AddNode E aP1 (m, cs) = (n1, m1, cs1)"
    and "AddNode E aP2 (m1, cs1) = (n2, m2, cs2)"
    and "AddNode E aP3 (m2, cs2) = (n3, m3, cs3)"
  shows "add_triangle E (aP1, aP2, aP3) (m, cs) =
           (m3, if n1 \<noteq> n2 \<and> n2 \<noteq> n3 \<and> n3 \<noteq> n1
                then cs3 @ [AddTriangle_call n1 n2 n3] else cs3)"
    and "count_AddTriangle cs3 = count_AddTriangle cs"
  using assms by (simp_all add: add_triangle_def AddNode_count_AddTriangle)

lemma ReadBinary_facet_resolved:
  assumes "AddNode E (readStlFloatVec3 E (drop (aBufferPtr L + aVec3Size) (aBuffer L)))
             (aMergeTool L, calls r) = (n1, m1, cs1)"
    and "AddNode E (readStlFloatVec3 E (drop (aBufferPtr L + aVec3Size * 2) (aBuffer L)))
             (m1, cs1) = (n2, m2, cs2)"
    and "AddNode E (readStlFloatVec3 E (drop (aBufferPtr L + aVec3Size * 3) (aBuffer L)))
             (m2, cs2) = (n3, m3, cs3)"
  shows "ReadBinary_facet E (L, r) =
           (L\<lparr>aMergeTool := m3,
              aNbFacetRead := aNbFacetRead L + 1,
              aNbRead := aNbRead L + 1,
              aNbFacesInBuffer := aNbFacesInBuffer L - 1,
              aBufferPtr := aBufferPtr L + aFaceDataLen\<rparr>,
            r\<lparr>calls := (if n1 \<noteq> n2 \<and> n2 \<noteq> n3 \<and> n3 \<noteq> n1
                         then cs3 @ [AddTriangle_call n1 n2 n3] else cs3)\<rparr>)"
  by (simp add: ReadBinary_facet_def Let_def add_triangle_resolved(1) [OF assms])

lemma ReadAscii_triangle_resolved:
  assumes v: "ReadAscii_vertex E r = (Vertex aP1, r1)"
      "ReadAscii_vertex E r1 = (Vertex aP2, r2)"
      "ReadAscii_vertex E r2 = (Vertex aP3, r3)"
    and a: "AddNode E aP1 (aMergeToolA L, calls r) = (n1, m1, cs1)"
      "AddNode E aP2 (m1, cs1) = (n2, m2, cs2)"
      "AddNode E aP3 (m2, cs2) = (n3, m3, cs3)"
  obtains r' where
    "ReadAscii_triangle E (L, r) =
       (Continue, L\<lparr>aMergeToolA := m3, aNbLine := aNbLine L + 5 + 2\<rparr>, r')"
    and "calls r' = (if n1 \<noteq> n2 \<and> n2 \<noteq> n3 \<and> n3 \<noteq> n1
                       then cs3 @ [AddTriangle_call n1 n2 n3] else cs3)"
    and "msgs r' = msgs r"
proof -
  let ?cs = "if n1 \<noteq> n2 \<and> n2 \<noteq> n3 \<and> n3 \<noteq> n1
             then cs3 @ [AddTriangle_call n1 n2 n3] else cs3"
  have c: "calls r3 = calls r" "msgs r3 = msgs r"
    using v by (auto dest!: ReadAscii_vertex_others)
  obtain l4 r4 where e1: "ReadLine (r3\<lparr>calls := ?cs\<rparr>) = (l4, r4)"
    by (cases "ReadLine (r3\<lparr>calls := ?cs\<rparr>)") auto
  obtain l5 r5 where e2: "ReadLine r4 = (l5, r5)"
    by (cases "ReadLine r4") auto
  from ReadLine_others [OF e1] ReadLine_others [OF e2] c
  have o: "calls r5 = ?cs" "msgs r5 = msgs r"
    by simp_all
  have at: "add_triangle E (aP1, aP2, aP3) (aMergeToolA L, calls r3) = (m3, ?cs)"
    using add_triangle_resolved(1) [OF a] c by simp
  have "ReadAscii_triangle E (L, r) =
       (Continue, L\<lparr>aMergeToolA := m3, aNbLine := aNbLine L + 5 + 2\<rparr>, r5)"
    by (simp add: ReadAscii_triangle_def v at e1 e2)
  from that [OF this o] show thesis .
qed

text \<open>
  C4. A facet decoded by the binary reader (the loop body on the current 50 bytes of
  the chunk) and a facet decoded by the text reader (three readable vertex lines, then
  the two lines that close the facet): when the indices \<open>n1\<close>, \<open>n2\<close>, \<open>n3\<close> that the merge
  tool resolves for the three vertices are pairwise distinct, exactly one
  \<^verbatim>\<open>AddTriangle\<close> call, with these indices, follows the calls of the three resolutions;
  when two of them coincide there is none. Either way no message is sent, and the text
  reader goes on with the next facet.
\<close>

theorem facet_emits_one_triangle_or_none:
  assumes b: "AddNode E (readStlFloatVec3 E (drop (aBufferPtr LB + aVec3Size) (aBuffer LB)))
             (aMergeTool LB, calls rB) = (n1, m1, cs1)"
      "AddNode E (readStlFloatVec3 E (drop (aBufferPtr LB + aVec3Size * 2) (aBuffer LB)))
             (m1, cs1) = (n2, m2, cs2)"
      "AddNode E (readStlFloatVec3 E (drop (aBufferPtr LB + aVec3Size * 3) (aBuffer LB)))
             (m2, cs2) = (n3, m3, cs3)"
    and v: "ReadAscii_vertex E rA = (Vertex aQ1, rA1)"
      "ReadAscii_vertex E rA1 = (Vertex aQ2, rA2)"
      "ReadAscii_vertex E rA2 = (Vertex aQ3, rA3)"
    and a: "AddNode E aQ1 (aMergeToolA LA, calls rA) = (k1, t1, ds1)"
      "AddNode E aQ2 (t1, ds1) = (k2, t2, ds2)"
      "AddNode E aQ3 (t2, ds2) = (k3, t3, ds3)"
  shows "(case ReadBinary_facet E (LB, rB) of (L', r') \<Rightarrow>
            aMergeTool L' = m3
            \<and> calls r' = (if n1 \<noteq> n2 \<and> n2 \<noteq> n3 \<and> n3 \<noteq> n1
                            then cs3 @ [AddTriangle_call n1 n2 n3] else cs3)
            \<and> count_AddTriangle (calls r') =
                count_AddTriangle (calls rB)
                + (if n1 \<noteq> n2 \<and> n2 \<noteq> n3 \<and> n3 \<noteq> n1 then 1 else 0)
            \<and> msgs r' = msgs rB)
         \<and> (case ReadAscii_triangle E (LA, rA) of (out, L', r') \<Rightarrow>
              out = Continue
              \<and> aMergeToolA L' = t3
              \<and> calls r' = (if k1 \<noteq> k2 \<and> k2 \<noteq> k3 \<and> k3 \<noteq> k1
                              then ds3 @ [AddTriangle_call k1 k2 k3] else ds3)
              \<and> count_AddTriangle (calls r') =
                  count_AddTriangle (calls rA)
                  + (if k1 \<noteq> k2 \<and> k2 \<noteq> k3 \<and> k3 \<noteq> k1 then 1 else 0)
              \<and> msgs r' = msgs rA)"
proof -
  have cb: "count_AddTriangle cs3 = count_AddTriangle (calls rB)"
    by (rule add_triangle_resolved(2) [OF b])
  have ca: "count_AddTriangle ds3 = count_AddTriangle (calls rA)"
    by (rule add_triangle_resolved(2) [OF a])
  have binary: "case ReadBinary_facet E (LB, rB) of (L', r') \<Rightarrow>
            aMergeTool L' = m3
            \<and> calls r' = (if n1 \<noteq> n2 \<and> n2 \<noteq> n3 \<and> n3 \<noteq> n1
                            then cs3 @ [AddTriangle_call n1 n2 n3] else cs3)
            \<and> count_AddTriangle (calls r') =
                count_AddTriangle (calls rB)
                + (if n1 \<noteq> n2 \<and> n2 \<noteq> n3 \<and> n3 \<noteq> n1 then 1 else 0)
            \<and> msgs r' = msgs rB"
    using cb by (simp add: ReadBinary_facet_resolved [OF b] count_AddTriangle_def)
  from ReadAscii_triangle_resolved [OF v a] obtain r' where
    t: "ReadAscii_triangle E (LA, rA) =
       (Continue, LA\<lparr>aMergeToolA := t3, aNbLine := aNbLine LA + 5 + 2\<rparr>, r')"
    and o: "calls r' = (if k1 \<noteq> k2 \<and> k2 \<noteq> k3 \<and> k3 \<noteq> k1
                       then ds3 @ [AddTriangle_call k1 k2 k3] else ds3)"
      "msgs r' = msgs rA"
    by blast
  have ascii: "case ReadAscii_triangle E (LA, rA) of (out, L', r') \<Rightarrow>
              out = Continue
              \<and> aMergeToolA L' = t3
              \<and> calls r' = (if k1 \<noteq> k2 \<and> k2 \<noteq> k3 \<and> k3 \<noteq> k1
                              then ds3 @ [AddTriangle_call k1 k2 k3] else ds3)
              \<and> count_AddTriangle (calls r') =
                  count_AddTriangle (calls rA)
                  + (if k1 \<noteq> k2 \<and> k2 \<noteq> k3 \<and> k3 \<noteq> k1 then 1 else 0)
              \<and> msgs r' = msgs rA"
    using ca o by (simp add: t count_AddTriangle_def)
  from binary ascii show ?thesis ..
qed


subsection \<open>The line reader\<close>

lemma istream_read_none_fail:
  assumes "istream_read n s = ([], s')" and "0 < n"
  shows "fail s' \<and> avail s = []"
  using assms
  by (auto simp: istream_read_def fail_def avail_def good_def Let_def split: if_splits)

lemma ReadLine_spec:
  assumes "0 < myBufferSize (theBuffer r)" and "ReadLine r = (res, r')"
  shows "res = (if pend r = [] then None else Some (takeWhile (\<lambda>c. c \<noteq> CHR 0x0A) (pend r)))
         \<and> pend r' = drop 1 (dropWhile (\<lambda>c. c \<noteq> CHR 0x0A) (pend r))
         \<and> myBufferSize (theBuffer r') = myBufferSize (theBuffer r)
         \<and> (res = None \<longrightarrow> fail (theStream r'))"
  using assms
proof (induction r arbitrary: res r' rule: ReadLine.induct)
  case (1 r)
  let ?P = "\<lambda>c. c \<noteq> CHR 0x0A"
  let ?b = "myPending (theBuffer r)"
  show ?case
  proof (cases "CHR 0x0A \<in> set ?b")
    case True
    then have ne: "dropWhile ?P ?b \<noteq> []" and "?b \<noteq> []"
      by (auto simp: dropWhile_eq_Nil_conv)
    from True have tw: "takeWhile ?P (pend r) = takeWhile ?P ?b"
      and dw: "dropWhile ?P (pend r) = dropWhile ?P ?b @ avail (theStream r)"
      by (auto simp: pend_def takeWhile_append1 dropWhile_append1)
    from True "1.prems"(2) have res: "res = Some (takeWhile ?P ?b)"
      and r': "r' = r\<lparr>theBuffer := (theBuffer r)\<lparr>myPending := drop 1 (dropWhile ?P ?b)\<rparr>\<rparr>"
      by (subst (asm) ReadLine.simps, simp add: Let_def)+
    have p': "pend r' = drop 1 (dropWhile ?P ?b) @ avail (theStream r)"
      unfolding r' by (simp add: pend_def)
    have "drop 1 (dropWhile ?P (pend r)) = drop 1 (dropWhile ?P ?b) @ avail (theStream r)"
      unfolding dw using ne by (cases "dropWhile ?P ?b") simp_all
    with p' have 2: "pend r' = drop 1 (dropWhile ?P (pend r))"
      by simp
    have 1: "res = (if pend r = [] then None else Some (takeWhile ?P (pend r)))"
      unfolding tw res using \<open>?b \<noteq> []\<close> by (simp add: pend_def)
    have 3: "myBufferSize (theBuffer r') = myBufferSize (theBuffer r)"
      unfolding r' by simp
    have 4: "res = None \<longrightarrow> fail (theStream r')"
      unfolding res by simp
    from 1 2 3 4 show ?thesis by blast
  next
    case False
    then have tw: "takeWhile ?P ?b = ?b" and dw: "dropWhile ?P ?b = []"
      by (auto simp: takeWhile_eq_all_conv dropWhile_eq_Nil_conv)
    obtain chunk s where rd: "istream_read (myBufferSize (theBuffer r)) (theStream r) = (chunk, s)"
      by (cases "istream_read (myBufferSize (theBuffer r)) (theStream r)") auto
    note av = istream_read_avail [OF rd]
    show ?thesis
    proof (cases "chunk = []")
      case True
      with rd "1.prems"(1) have f: "fail s" and e: "avail (theStream r) = []"
        using istream_read_none_fail by blast+
      from av e True have e': "avail s = []" by simp
      have pr: "pend r = ?b"
        using e by (simp add: pend_def)
      show ?thesis
      proof (cases "?b = []")
        case empty: True
        from False rd True empty "1.prems"(2) have "res = None" and r': "r' = r\<lparr>theStream := s\<rparr>"
          by (subst (asm) ReadLine.simps, simp add: Let_def)+
        moreover have "pend r' = []"
          unfolding r' using e' empty by (simp add: pend_def)
        moreover have "myBufferSize (theBuffer r') = myBufferSize (theBuffer r)"
          and "fail (theStream r')"
          unfolding r' using f by simp_all
        ultimately show ?thesis
          using pr empty by simp
      next
        case nonempty: False
        from False rd True nonempty "1.prems"(2) have res: "res = Some ?b"
          and r': "r' = r\<lparr>theStream := s, theBuffer := (theBuffer r)\<lparr>myPending := []\<rparr>\<rparr>"
          by (subst (asm) ReadLine.simps, simp add: Let_def)+
        have "pend r' = []"
          unfolding r' using e' by (simp add: pend_def)
        moreover have "drop 1 (dropWhile ?P (pend r)) = []"
          unfolding pr dw by simp
        ultimately have 2: "pend r' = drop 1 (dropWhile ?P (pend r))"
          by simp
        have 3: "myBufferSize (theBuffer r') = myBufferSize (theBuffer r)"
          unfolding r' by simp
        have 1: "res = (if pend r = [] then None else Some (takeWhile ?P (pend r)))"
          unfolding pr tw res using nonempty by simp
        have 4: "res = None \<longrightarrow> fail (theStream r')"
          unfolding res by simp
        from 1 2 3 4 show ?thesis by blast
      qed
    next
      case ne: False
      let ?r1 = "r\<lparr>theStream := s, theBuffer := (theBuffer r)\<lparr>myPending := ?b @ chunk\<rparr>\<rparr>"
      from False rd ne "1.prems"(2) have "ReadLine ?r1 = (res, r')"
        by (subst (asm) ReadLine.simps) (simp add: Let_def)
      moreover have "0 < myBufferSize (theBuffer ?r1)"
        using "1.prems"(1) by simp
      ultimately have "res = (if pend ?r1 = [] then None else Some (takeWhile ?P (pend ?r1)))
         \<and> pend r' = drop 1 (dropWhile ?P (pend ?r1))
         \<and> myBufferSize (theBuffer r') = myBufferSize (theBuffer ?r1)
         \<and> (res = None \<longrightarrow> fail (theStream r'))"
        using "1.IH" [OF refl False rd [symmetric] ne] by blast
      moreover have "pend ?r1 = pend r"
        using av by (simp add: pend_def)
      ultimately show ?thesis by simp
    qed
  qed
qed

lemma takeWhile_line:
  "CHR 0x0A \<notin> set l \<Longrightarrow> takeWhile (\<lambda>c. c \<noteq> CHR 0x0A) (l @ CHR 0x0A # rest) = l"
  by (induction l) auto

lemma dropWhile_line:
  "CHR 0x0A \<notin> set l \<Longrightarrow>
     dropWhile (\<lambda>c. c \<noteq> CHR 0x0A) (l @ CHR 0x0A # rest) = CHR 0x0A # rest"
  by (induction l) auto

lemma ReadLine_line:
  assumes "0 < myBufferSize (theBuffer r)"
    and "pend r = l @ CHR 0x0A # rest" and "CHR 0x0A \<notin> set l"
  obtains r' where "ReadLine r = (Some l, r')" and "pend r' = rest"
    and "myBufferSize (theBuffer r') = myBufferSize (theBuffer r)"
    and "calls r' = calls r" and "msgs r' = msgs r" and "polls r' = polls r"
proof -
  obtain res r' where rl: "ReadLine r = (res, r')"
    by (cases "ReadLine r") auto
  have tw: "takeWhile (\<lambda>c. c \<noteq> CHR 0x0A) (pend r) = l"
    unfolding assms(2) using assms(3) by (rule takeWhile_line)
  have dw: "drop 1 (dropWhile (\<lambda>c. c \<noteq> CHR 0x0A) (pend r)) = rest"
    unfolding assms(2) dropWhile_line [OF assms(3)] by simp
  have ne: "pend r \<noteq> []"
    unfolding assms(2) by simp
  note sp = ReadLine_spec [OF assms(1) rl]
  from sp ne have "res = Some (takeWhile (\<lambda>c. c \<noteq> CHR 0x0A) (pend r))"
    by (simp only: if_False)
  then have 1: "res = Some l"
    unfolding tw .
  from sp have 2: "pend r' = rest"
    unfolding dw by (rule conjunct1 [OF conjunct2])
  from sp have 3: "myBufferSize (theBuffer r') = myBufferSize (theBuffer r)"
    by (rule conjunct1 [OF conjunct2 [OF conjunct2]])
  note o = ReadLine_others [OF rl]
  show thesis
    using that [OF rl [unfolded 1] 2 3] o by blast
qed

lemma ReadLine_eof:
  assumes "0 < myBufferSize (theBuffer r)" and "pend r = []"
  obtains r' where "ReadLine r = (None, r')" and "pend r' = []" and "fail (theStream r')"
    and "myBufferSize (theBuffer r') = myBufferSize (theBuffer r)"
    and "calls r' = calls r" and "msgs r' = msgs r" and "polls r' = polls r"
proof -
  obtain res r' where rl: "ReadLine r = (res, r')"
    by (cases "ReadLine r") auto
  note sp = ReadLine_spec [OF assms(1) rl, unfolded assms(2)]
  from sp have 1: "res = None" by simp
  from sp have 2: "pend r' = []" by simp
  from sp 1 have 3: "fail (theStream r')" by simp
  from sp have 4: "myBufferSize (theBuffer r') = myBufferSize (theBuffer r)" by simp
  note o = ReadLine_others [OF rl]
  show thesis
    using that [OF rl [unfolded 1] 2 3 4] o by blast
qed


lemma unlines_nl_Cons: "unlines_nl (l # ls) = l @ CHR 0x0A # unlines_nl ls"
  by (simp add: unlines_nl_def)

lemma unlines_nl_Nil: "unlines_nl [] = []"
  by (simp add: unlines_nl_def)

lemma unlines_nl_append: "unlines_nl (xs @ ys) = unlines_nl xs @ unlines_nl ys"
  by (simp add: unlines_nl_def)

lemma ReadAscii_vertex_line:
  assumes "0 < myBufferSize (theBuffer r)"
    and "pend r = l @ CHR 0x0A # rest" and "CHR 0x0A \<notin> set l" and "fst (ReadVertex E l)"
  obtains r' where "ReadAscii_vertex E r = (Vertex (snd (ReadVertex E l)), r')" and "pend r' = rest"
    and "myBufferSize (theBuffer r') = myBufferSize (theBuffer r)"
    and "calls r' = calls r" and "msgs r' = msgs r" and "polls r' = polls r"
proof -
  from ReadLine_line [OF assms(1-3)] obtain r' where rl: "ReadLine r = (Some l, r')"
    and o: "pend r' = rest" "myBufferSize (theBuffer r') = myBufferSize (theBuffer r)"
      "calls r' = calls r" "msgs r' = msgs r" "polls r' = polls r"
    by blast
  have "ReadAscii_vertex E r = (Vertex (snd (ReadVertex E l)), r')"
    using rl assms(4) by (cases "ReadVertex E l") (simp add: ReadAscii_vertex_def)
  with o that show thesis by blast
qed

lemma ReadAscii_vertex_eof:
  assumes "0 < myBufferSize (theBuffer r)" and "pend r = []"
  obtains r' where "ReadAscii_vertex E r = (Vertex_EOF, r')" and "pend r' = []"
    and "fail (theStream r')"
    and "myBufferSize (theBuffer r') = myBufferSize (theBuffer r)"
    and "calls r' = calls r" and "msgs r' = msgs r" and "polls r' = polls r"
proof -
  from ReadLine_eof [OF assms] obtain r' where rl: "ReadLine r = (None, r')"
    and o: "pend r' = []" "fail (theStream r')"
      "myBufferSize (theBuffer r') = myBufferSize (theBuffer r)"
      "calls r' = calls r" "msgs r' = msgs r" "polls r' = polls r"
    by blast
  have "ReadAscii_vertex E r = (Vertex_EOF, r')"
    using rl by (simp add: ReadAscii_vertex_def)
  with o that show thesis by blast
qed

lemma ReadAscii_triangle_good:
  assumes bs: "0 < myBufferSize (theBuffer r)"
    and p: "pend r = unlines_nl [aV0, aV1, aV2, aEndloop, aEndfacet] @ rest"
    and nl: "CHR 0x0A \<notin> set aV0" "CHR 0x0A \<notin> set aV1" "CHR 0x0A \<notin> set aV2"
      "CHR 0x0A \<notin> set aEndloop" "CHR 0x0A \<notin> set aEndfacet"
    and ok: "fst (ReadVertex E aV0)" "fst (ReadVertex E aV1)" "fst (ReadVertex E aV2)"
  obtains L' r' where "ReadAscii_triangle E (L, r) = (Continue, L', r')" and "pend r' = rest"
    and "myBufferSize (theBuffer r') = myBufferSize (theBuffer r)"
    and "msgs r' = msgs r" and "polls r' = polls r"
    and "(aMergeToolA L', calls r') =
           add_triangle E (snd (ReadVertex E aV0), snd (ReadVertex E aV1), snd (ReadVertex E aV2))
             (aMergeToolA L, calls r)"
    and "aNbLine L' = aNbLine L + 7" and "aProgressPos L' = aProgressPos L"
proof -
  from p have p0: "pend r = aV0 @ CHR 0x0A # unlines_nl [aV1, aV2, aEndloop, aEndfacet] @ rest"
    by (simp add: unlines_nl_def)
  from ReadAscii_vertex_line [OF bs p0 nl(1) ok(1)] obtain r1 where
    v0: "ReadAscii_vertex E r = (Vertex (snd (ReadVertex E aV0)), r1)"
    and p1: "pend r1 = unlines_nl [aV1, aV2, aEndloop, aEndfacet] @ rest"
    and o1: "myBufferSize (theBuffer r1) = myBufferSize (theBuffer r)"
      "calls r1 = calls r" "msgs r1 = msgs r" "polls r1 = polls r"
    by blast
  from bs o1 have bs1: "0 < myBufferSize (theBuffer r1)" by simp
  from p1 have p1': "pend r1 = aV1 @ CHR 0x0A # unlines_nl [aV2, aEndloop, aEndfacet] @ rest"
    by (simp add: unlines_nl_def)
  from ReadAscii_vertex_line [OF bs1 p1' nl(2) ok(2)] obtain r2 where
    v1: "ReadAscii_vertex E r1 = (Vertex (snd (ReadVertex E aV1)), r2)"
    and p2: "pend r2 = unlines_nl [aV2, aEndloop, aEndfacet] @ rest"
    and o2: "myBufferSize (theBuffer r2) = myBufferSize (theBuffer r1)"
      "calls r2 = calls r1" "msgs r2 = msgs r1" "polls r2 = polls r1"
    by blast
  from bs1 o2 have bs2: "0 < myBufferSize (theBuffer r2)" by simp
  from p2 have p2': "pend r2 = aV2 @ CHR 0x0A # unlines_nl [aEndloop, aEndfacet] @ rest"
    by (simp add: unlines_nl_def)
  from ReadAscii_vertex_line [OF bs2 p2' nl(3) ok(3)] obtain r3 where
    v2: "ReadAscii_vertex E r2 = (Vertex (snd (ReadVertex E aV2)), r3)"
    and p3: "pend r3 = unlines_nl [aEndloop, aEndfacet] @ rest"
    and o3: "myBufferSize (theBuffer r3) = myBufferSize (theBuffer r2)"
      "calls r3 = calls r2" "msgs r3 = msgs r2" "polls r3 = polls r2"
    by blast
  obtain m cs where at: "add_triangle E
      (snd (ReadVertex E aV0), snd (ReadVertex E aV1), snd (ReadVertex E aV2))
      (aMergeToolA L, calls r3) = (m, cs)"
    by (cases "add_triangle E
      (snd (ReadVertex E aV0), snd (ReadVertex E aV1), snd (ReadVertex E aV2))
      (aMergeToolA L, calls r3)") auto
  let ?r3 = "r3\<lparr>calls := cs\<rparr>"
  from bs2 o3 have bs3: "0 < myBufferSize (theBuffer ?r3)" by simp
  from p3 have p3': "pend ?r3 = aEndloop @ CHR 0x0A # unlines_nl [aEndfacet] @ rest"
    by (simp add: unlines_nl_def)
  from ReadLine_line [OF bs3 p3' nl(4)] obtain r4 where
    l4: "ReadLine ?r3 = (Some aEndloop, r4)"
    and p4: "pend r4 = unlines_nl [aEndfacet] @ rest"
    and o4: "myBufferSize (theBuffer r4) = myBufferSize (theBuffer ?r3)"
      "calls r4 = calls ?r3" "msgs r4 = msgs ?r3" "polls r4 = polls ?r3"
    by blast
  from bs3 o4 have bs4: "0 < myBufferSize (theBuffer r4)" by simp
  from p4 have p4': "pend r4 = aEndfacet @ CHR 0x0A # rest"
    by (simp add: unlines_nl_def)
  from ReadLine_line [OF bs4 p4' nl(5)] obtain r5 where
    l5: "ReadLine r4 = (Some aEndfacet, r5)"
    and p5: "pend r5 = rest"
    and o5: "myBufferSize (theBuffer r5) = myBufferSize (theBuffer r4)"
      "calls r5 = calls r4" "msgs r5 = msgs r4" "polls r5 = polls r4"
    by blast
  have res: "ReadAscii_triangle E (L, r) =
      (Continue, L\<lparr>aMergeToolA := m, aNbLine := aNbLine L + 5 + 2\<rparr>, r5)"
    by (simp add: ReadAscii_triangle_def v0 v1 v2 at l4 l5)
  have c: "calls r3 = calls r" using o1 o2 o3 by simp
  show thesis
  proof (rule that [OF res p5])
    show "myBufferSize (theBuffer r5) = myBufferSize (theBuffer r)"
      using o1 o2 o3 o4 o5 by simp
    show "msgs r5 = msgs r" using o1 o2 o3 o4 o5 by simp
    show "polls r5 = polls r" using o1 o2 o3 o4 o5 by simp
    show "(aMergeToolA (L\<lparr>aMergeToolA := m, aNbLine := aNbLine L + 5 + 2\<rparr>), calls r5) =
        add_triangle E (snd (ReadVertex E aV0), snd (ReadVertex E aV1), snd (ReadVertex E aV2))
          (aMergeToolA L, calls r)"
      using at c o4 o5 by simp
    show "aNbLine (L\<lparr>aMergeToolA := m, aNbLine := aNbLine L + 5 + 2\<rparr>) = aNbLine L + 7"
      by simp
    show "aProgressPos (L\<lparr>aMergeToolA := m, aNbLine := aNbLine L + 5 + 2\<rparr>) = aProgressPos L"
      by simp
  qed
qed


lemma ReadAscii_progress_obs:
  assumes "ReadAscii_progress (L, r) = (L1, r0)"
  shows "aMergeToolA L1 = aMergeToolA L" and "aNbLine L1 = aNbLine L"
    and "pend r0 = pend r" and "myBufferSize (theBuffer r0) = myBufferSize (theBuffer r)"
    and "calls r0 = calls r" and "msgs r0 = msgs r" and "polls r0 = polls r"
  using assms
  by (auto simp: ReadAscii_progress_def pend_def split: prod.splits if_splits dest: tellg_avail)

lemma ReadAscii_keywords_good:
  assumes bs: "0 < myBufferSize (theBuffer r)"
    and gf: "good_facet E ls"
    and p: "pend r = unlines_nl ls @ rest"
  obtains L' r' where "ReadAscii_keywords E (L, r) = (Continue, L', r')" and "pend r' = rest"
    and "myBufferSize (theBuffer r') = myBufferSize (theBuffer r)"
    and "msgs r' = msgs r" and "polls r' = polls r"
    and "(aMergeToolA L', calls r') =
           add_triangle E (facet_vertices E ls) (aMergeToolA L, calls r)"
    and "aNbLine L' = aNbLine L + 7"
proof -
  from gf obtain aFacet aOuter aV0 aV1 aV2 aEndloop aEndfacet where
    ls: "ls = [aFacet, aOuter, aV0, aV1, aV2, aEndloop, aEndfacet]"
    by (auto elim: good_facet.elims)
  from gf have nl: "CHR 0x0A \<notin> set aFacet" "CHR 0x0A \<notin> set aOuter" "CHR 0x0A \<notin> set aV0"
    "CHR 0x0A \<notin> set aV1" "CHR 0x0A \<notin> set aV2" "CHR 0x0A \<notin> set aEndloop"
    "CHR 0x0A \<notin> set aEndfacet"
    and kw: "\<not> str_starts_with aFacet ''endsolid'' 8" "str_starts_with aFacet ''facet'' 5"
    "str_starts_with aOuter ''outer'' 5"
    and ok: "fst (ReadVertex E aV0)" "fst (ReadVertex E aV1)" "fst (ReadVertex E aV2)"
    unfolding ls by simp_all
  have p0: "pend r = aFacet @ CHR 0x0A # unlines_nl [aOuter, aV0, aV1, aV2, aEndloop, aEndfacet] @ rest"
    using p by (simp add: ls unlines_nl_def)
  from ReadLine_line [OF bs p0 nl(1)] obtain r1 where
    l1: "ReadLine r = (Some aFacet, r1)"
    and p1: "pend r1 = unlines_nl [aOuter, aV0, aV1, aV2, aEndloop, aEndfacet] @ rest"
    and o1: "myBufferSize (theBuffer r1) = myBufferSize (theBuffer r)"
      "calls r1 = calls r" "msgs r1 = msgs r" "polls r1 = polls r"
    by blast
  from bs o1 have bs1: "0 < myBufferSize (theBuffer r1)" by simp
  have p1': "pend r1 = aOuter @ CHR 0x0A # unlines_nl [aV0, aV1, aV2, aEndloop, aEndfacet] @ rest"
    using p1 by (simp add: unlines_nl_def)
  from ReadLine_line [OF bs1 p1' nl(2)] obtain r2 where
    l2: "ReadLine r1 = (Some aOuter, r2)"
    and p2: "pend r2 = unlines_nl [aV0, aV1, aV2, aEndloop, aEndfacet] @ rest"
    and o2: "myBufferSize (theBuffer r2) = myBufferSize (theBuffer r1)"
      "calls r2 = calls r1" "msgs r2 = msgs r1" "polls r2 = polls r1"
    by blast
  from bs1 o2 have bs2: "0 < myBufferSize (theBuffer r2)" by simp
  from ReadAscii_triangle_good [OF bs2 p2 nl(3-7) ok, of L] obtain L' r' where
    t: "ReadAscii_triangle E (L, r2) = (Continue, L', r')" and p': "pend r' = rest"
    and o': "myBufferSize (theBuffer r') = myBufferSize (theBuffer r2)"
      "msgs r' = msgs r2" "polls r' = polls r2"
      "(aMergeToolA L', calls r') =
           add_triangle E (snd (ReadVertex E aV0), snd (ReadVertex E aV1), snd (ReadVertex E aV2))
             (aMergeToolA L, calls r2)"
      "aNbLine L' = aNbLine L + 7"
    by blast
  have res: "ReadAscii_keywords E (L, r) = (Continue, L', r')"
    by (simp add: ReadAscii_keywords_def l1 l2 kw t)
  show thesis
  proof (rule that [OF res p'])
    show "myBufferSize (theBuffer r') = myBufferSize (theBuffer r)"
      using o1 o2 o' by simp
    show "msgs r' = msgs r" using o1 o2 o' by simp
    show "polls r' = polls r" using o1 o2 o' by simp
    show "(aMergeToolA L', calls r') = add_triangle E (facet_vertices E ls) (aMergeToolA L, calls r)"
      using o'(4) o1 o2 by (simp add: ls)
    show "aNbLine L' = aNbLine L + 7"
      using o'(5) by simp
  qed
qed

lemma ReadAscii_facet_good:
  assumes bs: "0 < myBufferSize (theBuffer r)"
    and gf: "good_facet E ls"
    and p: "pend r = unlines_nl ls @ rest"
  obtains L' r' where "ReadAscii_facet E (L, r) = (Continue, L', r')" and "pend r' = rest"
    and "myBufferSize (theBuffer r') = myBufferSize (theBuffer r)"
    and "msgs r' = msgs r" and "polls r' = polls r"
    and "(aMergeToolA L', calls r') =
           add_triangle E (facet_vertices E ls) (aMergeToolA L, calls r)"
    and "aNbLine L' = aNbLine L + 7"
proof -
  obtain L1 r0 where pr: "ReadAscii_progress (L, r) = (L1, r0)"
    by (cases "ReadAscii_progress (L, r)") auto
  note o = ReadAscii_progress_obs [OF pr]
  from bs o have bs0: "0 < myBufferSize (theBuffer r0)" by simp
  from p o have p0: "pend r0 = unlines_nl ls @ rest" by simp
  from ReadAscii_keywords_good [OF bs0 gf p0, of L1] obtain L' r' where
    k: "ReadAscii_keywords E (L1, r0) = (Continue, L', r')" "pend r' = rest"
      "myBufferSize (theBuffer r') = myBufferSize (theBuffer r0)"
      "msgs r' = msgs r0" "polls r' = polls r0"
      "(aMergeToolA L', calls r') = add_triangle E (facet_vertices E ls) (aMergeToolA L1, calls r0)"
      "aNbLine L' = aNbLine L1 + 7"
    by blast
  show thesis
    by (rule that [of L' r']) (use k o pr in \<open>simp_all add: ReadAscii_facet_def\<close>)
qed

lemma ReadAscii_loop_facets:
  assumes bs: "0 < myBufferSize (theBuffer r)"
    and nb: "\<forall>n. \<not> UserBreak E n"
    and gf: "\<forall>ls \<in> set fs. good_facet E ls"
    and p: "pend r = unlines_nl (concat fs) @ rest"
  obtains L' r' where "ReadAscii_loop E (L, r) = ReadAscii_loop E (L', r')" and "pend r' = rest"
    and "myBufferSize (theBuffer r') = myBufferSize (theBuffer r)"
    and "msgs r' = msgs r"
    and "(aMergeToolA L', calls r') = decode_facets E fs (aMergeToolA L, calls r)"
    and "aNbLine L' = aNbLine L + 7 * of_nat (length fs)"
  using assms
proof (induction fs arbitrary: L r thesis)
  case Nil
  show ?case
    by (rule Nil.prems(1) [of L r]) (use Nil.prems in \<open>simp_all add: unlines_nl_def\<close>)
next
  case (Cons ls fs)
  let ?r1 = "r\<lparr>polls := Suc (polls r)\<rparr>"
  have bs1: "0 < myBufferSize (theBuffer ?r1)" using Cons.prems(2) by simp
  have p1: "pend ?r1 = unlines_nl ls @ (unlines_nl (concat fs) @ rest)"
    using Cons.prems(5) by (simp add: unlines_nl_append)
  have g: "good_facet E ls" using Cons.prems(4) by simp
  from ReadAscii_facet_good [OF bs1 g p1, of L] obtain L1 r2 where
    f: "ReadAscii_facet E (L, ?r1) = (Continue, L1, r2)"
    and p2: "pend r2 = unlines_nl (concat fs) @ rest"
    and o2: "myBufferSize (theBuffer r2) = myBufferSize (theBuffer ?r1)"
      "msgs r2 = msgs ?r1"
      "(aMergeToolA L1, calls r2) = add_triangle E (facet_vertices E ls) (aMergeToolA L, calls ?r1)"
      "aNbLine L1 = aNbLine L + 7"
    by blast
  have step: "ReadAscii_loop E (L, r) = ReadAscii_loop E (L1, r2)"
    using Cons.prems(3) f by (subst ReadAscii_loop.simps) (simp add: More_def)
  have bs2: "0 < myBufferSize (theBuffer r2)" using bs1 o2 by simp
  have g2: "\<forall>ls \<in> set fs. good_facet E ls" using Cons.prems(4) by simp
  show ?case
  proof (rule Cons.IH [OF _ bs2 Cons.prems(3) g2 p2, of L1])
    fix L' r'
    assume a: "ReadAscii_loop E (L1, r2) = ReadAscii_loop E (L', r')" "pend r' = rest"
      "myBufferSize (theBuffer r') = myBufferSize (theBuffer r2)" "msgs r' = msgs r2"
      "(aMergeToolA L', calls r') = decode_facets E fs (aMergeToolA L1, calls r2)"
      "aNbLine L' = aNbLine L1 + 7 * of_nat (length fs)"
    show thesis
    proof (rule Cons.prems(1) [of L' r'])
      show "ReadAscii_loop E (L, r) = ReadAscii_loop E (L', r')"
        using step a(1) by simp
      show "pend r' = rest" by (rule a(2))
      show "myBufferSize (theBuffer r') = myBufferSize (theBuffer r)"
        using a(3) o2 by simp
      show "msgs r' = msgs r" using a(4) o2 by simp
      show "(aMergeToolA L', calls r') = decode_facets E (ls # fs) (aMergeToolA L, calls r)"
        using a(5) o2(3) by simp
      show "aNbLine L' = aNbLine L + 7 * of_nat (length (ls # fs))"
        using a(6) o2(4) by simp
    qed
  qed
qed


lemma short_list_cases:
  assumes "length vs < 3"
  obtains "vs = []" | v0 where "vs = [v0]" | v0 v1 where "vs = [v0, v1]"
proof (cases vs)
  case Nil
  then show thesis by (rule that(1))
next
  case (Cons a as)
  note c1 = this
  show thesis
  proof (cases as)
    case Nil
    with c1 show thesis by (intro that(2)) simp
  next
    case (Cons b bs)
    with c1 assms have "bs = []" by simp
    with c1 Cons show thesis by (intro that(3)) simp
  qed
qed

lemma ReadAscii_triangle_eof:
  assumes bs: "0 < myBufferSize (theBuffer r)"
    and p: "pend r = unlines_nl vs" and n: "length vs < 3"
    and ok: "\<forall>v \<in> set vs. CHR 0x0A \<notin> set v \<and> fst (ReadVertex E v)"
  obtains r' where "ReadAscii_triangle E (L, r) = (Break, L, r')"
    and "calls r' = calls r" and "msgs r' = msgs r" and "polls r' = polls r"
proof -
  from n show thesis
  proof (cases vs rule: short_list_cases)
    case 1
    with p have p0: "pend r = []" by (simp add: unlines_nl_def)
    from ReadAscii_vertex_eof [OF bs p0, of E] obtain r1 where
      "ReadAscii_vertex E r = (Vertex_EOF, r1)" "calls r1 = calls r" "msgs r1 = msgs r"
      "polls r1 = polls r"
      by blast
    then show thesis
      by (intro that [of r1]) (simp_all add: ReadAscii_triangle_def)
  next
    case (2 v0)
    with p ok have p0: "pend r = v0 @ CHR 0x0A # []" and k0: "CHR 0x0A \<notin> set v0" "fst (ReadVertex E v0)"
      by (simp_all add: unlines_nl_def)
    from ReadAscii_vertex_line [OF bs p0 k0] obtain r1 where
      a: "ReadAscii_vertex E r = (Vertex (snd (ReadVertex E v0)), r1)" "pend r1 = []"
      "myBufferSize (theBuffer r1) = myBufferSize (theBuffer r)"
      "calls r1 = calls r" "msgs r1 = msgs r" "polls r1 = polls r"
      by blast
    from bs a(3) have bs1: "0 < myBufferSize (theBuffer r1)" by simp
    from ReadAscii_vertex_eof [OF bs1 a(2), of E] obtain r2 where
      b: "ReadAscii_vertex E r1 = (Vertex_EOF, r2)" "calls r2 = calls r1" "msgs r2 = msgs r1"
      "polls r2 = polls r1"
      by blast
    show thesis
      by (rule that [of r2]) (simp_all add: ReadAscii_triangle_def a b)
  next
    case (3 v0 v1)
    with p ok have p0: "pend r = v0 @ CHR 0x0A # (v1 @ CHR 0x0A # [])"
      and k0: "CHR 0x0A \<notin> set v0" "fst (ReadVertex E v0)"
      and k1: "CHR 0x0A \<notin> set v1" "fst (ReadVertex E v1)"
      by (simp_all add: unlines_nl_def)
    from ReadAscii_vertex_line [OF bs p0 k0] obtain r1 where
      a: "ReadAscii_vertex E r = (Vertex (snd (ReadVertex E v0)), r1)"
      "pend r1 = v1 @ CHR 0x0A # []"
      "myBufferSize (theBuffer r1) = myBufferSize (theBuffer r)"
      "calls r1 = calls r" "msgs r1 = msgs r" "polls r1 = polls r"
      by blast
    from bs a(3) have bs1: "0 < myBufferSize (theBuffer r1)" by simp
    from ReadAscii_vertex_line [OF bs1 a(2) k1] obtain r2 where
      b: "ReadAscii_vertex E r1 = (Vertex (snd (ReadVertex E v1)), r2)" "pend r2 = []"
      "myBufferSize (theBuffer r2) = myBufferSize (theBuffer r1)"
      "calls r2 = calls r1" "msgs r2 = msgs r1" "polls r2 = polls r1"
      by blast
    from bs1 b(3) have bs2: "0 < myBufferSize (theBuffer r2)" by simp
    from ReadAscii_vertex_eof [OF bs2 b(2), of E] obtain r3 where
      c: "ReadAscii_vertex E r2 = (Vertex_EOF, r3)" "calls r3 = calls r2" "msgs r3 = msgs r2"
      "polls r3 = polls r2"
      by blast
    show thesis
      by (rule that [of r3]) (simp_all add: ReadAscii_triangle_def a b c)
  qed
qed



lemma ReadAscii_keywords_eof:
  assumes bs: "0 < myBufferSize (theBuffer r)" and p: "pend r = []"
  obtains r' where "ReadAscii_keywords E (L, r) = (Return_false, L, r')"
    and "msgs r' = msgs r @ [Premature_end_of_file]" and "calls r' = calls r"
    and "fail (theStream r')"
proof -
  from ReadLine_eof [OF bs p] obtain r1 where
    l: "ReadLine r = (None, r1)" and o: "fail (theStream r1)" "calls r1 = calls r"
      "msgs r1 = msgs r"
    by blast
  show thesis
    by (rule that [of "SendFail Premature_end_of_file r1"])
      (use l o in \<open>simp_all add: ReadAscii_keywords_def SendFail_def\<close>)
qed

lemma ReadAscii_keywords_bad_facet:
  assumes bs: "0 < myBufferSize (theBuffer r)"
    and p: "pend r = l @ CHR 0x0A # rest" and nl: "CHR 0x0A \<notin> set l"
    and kw: "\<not> str_starts_with l ''endsolid'' 8" "\<not> str_starts_with l ''facet'' 5"
  obtains r' where "ReadAscii_keywords E (L, r) = (Return_false, L, r')"
    and "msgs r' = msgs r @ [Unexpected_format_of_facet (sint (aNbLine L + 1))]"
    and "calls r' = calls r"
proof -
  from ReadLine_line [OF bs p nl] obtain r1 where
    l: "ReadLine r = (Some l, r1)" and o: "calls r1 = calls r" "msgs r1 = msgs r"
    by blast
  show thesis
    by (rule that [of "SendFail (Unexpected_format_of_facet (sint (aNbLine L + 1))) r1"])
      (use l o kw in \<open>simp_all add: ReadAscii_keywords_def SendFail_def\<close>)
qed

lemma ReadAscii_keywords_bad_outer:
  assumes bs: "0 < myBufferSize (theBuffer r)"
    and p: "pend r = aFacet @ CHR 0x0A # rest1" and nl: "CHR 0x0A \<notin> set aFacet"
    and kw: "\<not> str_starts_with aFacet ''endsolid'' 8" "str_starts_with aFacet ''facet'' 5"
    and bad: "rest1 = [] \<or> (\<exists>l rest. rest1 = l @ CHR 0x0A # rest \<and> CHR 0x0A \<notin> set l
                \<and> \<not> str_starts_with l ''outer'' 5)"
  obtains r' where "ReadAscii_keywords E (L, r) = (Return_false, L, r')"
    and "msgs r' = msgs r @ [Unexpected_format_of_facet (sint (aNbLine L + 1))]"
    and "calls r' = calls r"
proof -
  from ReadLine_line [OF bs p nl] obtain r1 where
    l1: "ReadLine r = (Some aFacet, r1)" and p1: "pend r1 = rest1"
    and o1: "myBufferSize (theBuffer r1) = myBufferSize (theBuffer r)"
      "calls r1 = calls r" "msgs r1 = msgs r"
    by blast
  from bs o1 have bs1: "0 < myBufferSize (theBuffer r1)" by simp
  from bad show thesis
  proof
    assume "rest1 = []"
    with p1 have "pend r1 = []" by simp
    from ReadLine_eof [OF bs1 this] obtain r2 where
      l2: "ReadLine r1 = (None, r2)" and o2: "calls r2 = calls r1" "msgs r2 = msgs r1"
      by blast
    show thesis
      by (rule that [of "SendFail (Unexpected_format_of_facet (sint (aNbLine L + 1))) r2"])
        (use l1 l2 o1 o2 kw in \<open>simp_all add: ReadAscii_keywords_def SendFail_def\<close>)
  next
    assume "\<exists>l rest. rest1 = l @ CHR 0x0A # rest \<and> CHR 0x0A \<notin> set l
                \<and> \<not> str_starts_with l ''outer'' 5"
    then obtain l rest where r1: "rest1 = l @ CHR 0x0A # rest" and nl2: "CHR 0x0A \<notin> set l"
      and no: "\<not> str_starts_with l ''outer'' 5"
      by blast
    from p1 r1 have p1': "pend r1 = l @ CHR 0x0A # rest" by simp
    from ReadLine_line [OF bs1 p1' nl2] obtain r2 where
      l2: "ReadLine r1 = (Some l, r2)" and o2: "calls r2 = calls r1" "msgs r2 = msgs r1"
      by blast
    show thesis
      by (rule that [of "SendFail (Unexpected_format_of_facet (sint (aNbLine L + 1))) r2"])
        (use l1 l2 o1 o2 kw no in \<open>simp_all add: ReadAscii_keywords_def SendFail_def\<close>)
  qed
qed

lemma ReadAscii_keywords_vertex_eof:
  assumes bs: "0 < myBufferSize (theBuffer r)"
    and p: "pend r = unlines_nl ([aFacet, aOuter] @ vs)"
    and nl: "CHR 0x0A \<notin> set aFacet" "CHR 0x0A \<notin> set aOuter"
    and kw: "\<not> str_starts_with aFacet ''endsolid'' 8" "str_starts_with aFacet ''facet'' 5"
      "str_starts_with aOuter ''outer'' 5"
    and n: "length vs < 3"
    and ok: "\<forall>v \<in> set vs. CHR 0x0A \<notin> set v \<and> fst (ReadVertex E v)"
  obtains r' where "ReadAscii_keywords E (L, r) = (Break, L, r')"
    and "msgs r' = msgs r" and "calls r' = calls r"
proof -
  have p0: "pend r = aFacet @ CHR 0x0A # (aOuter @ CHR 0x0A # unlines_nl vs)"
    using p by (simp add: unlines_nl_def)
  from ReadLine_line [OF bs p0 nl(1)] obtain r1 where
    l1: "ReadLine r = (Some aFacet, r1)" and p1: "pend r1 = aOuter @ CHR 0x0A # unlines_nl vs"
    and o1: "myBufferSize (theBuffer r1) = myBufferSize (theBuffer r)"
      "calls r1 = calls r" "msgs r1 = msgs r"
    by blast
  from bs o1 have bs1: "0 < myBufferSize (theBuffer r1)" by simp
  from ReadLine_line [OF bs1 p1 nl(2)] obtain r2 where
    l2: "ReadLine r1 = (Some aOuter, r2)" and p2: "pend r2 = unlines_nl vs"
    and o2: "myBufferSize (theBuffer r2) = myBufferSize (theBuffer r1)"
      "calls r2 = calls r1" "msgs r2 = msgs r1"
    by blast
  from bs1 o2 have bs2: "0 < myBufferSize (theBuffer r2)" by simp
  from ReadAscii_triangle_eof [OF bs2 p2 n ok, of L] obtain r3 where
    t: "ReadAscii_triangle E (L, r2) = (Break, L, r3)" and o3: "calls r3 = calls r2"
      "msgs r3 = msgs r2"
    by blast
  show thesis
    by (rule that [of r3]) (use l1 l2 t o1 o2 o3 kw in \<open>simp_all add: ReadAscii_keywords_def\<close>)
qed

lemma ReadAscii_loop_last:
  assumes nb: "\<forall>n. \<not> UserBreak E n"
    and k: "ReadAscii_keywords E (ReadAscii_progress (L, r\<lparr>polls := Suc (polls r)\<rparr>)) = (out, L', r')"
    and out: "out \<noteq> Continue"
  shows "fst (ReadAscii_loop E (L, r)) = (out = Break)
         \<and> msgs (snd (snd (ReadAscii_loop E (L, r)))) = msgs r'
         \<and> calls (snd (snd (ReadAscii_loop E (L, r)))) = calls r'
         \<and> theStream (snd (snd (ReadAscii_loop E (L, r)))) = theStream r'"
  using nb k out
  by (subst (1 2 3 4) ReadAscii_loop.simps)
    (cases out; simp add: More_def ReadAscii_facet_def)

lemma ReadAscii_block:
  assumes bs: "0 < myBufferSize (theBuffer r)"
    and nb: "\<forall>n. \<not> UserBreak E n"
    and h: "CHR 0x0A \<notin> set aHeader"
    and gf: "\<forall>ls \<in> set fs. good_facet E ls"
    and p: "pend r = unlines_nl (aHeader # concat fs) @ rest"
  obtains L' r' where "ReadAscii E r = (fst (ReadAscii_loop E (L', r')), snd (snd (ReadAscii_loop E (L', r'))))"
    and "pend r' = rest"
    and "myBufferSize (theBuffer r') = myBufferSize (theBuffer r)"
    and "msgs r' = msgs r"
    and "(aMergeToolA L', calls r') = decode_facets E fs (MergeNodeTool, calls r)"
    and "aNbLine L' = 1 + 7 * of_nat (length fs)"
proof -
  obtain aStartPos s where t: "tellg (theStream r) = (aStartPos, s)"
    by (cases "tellg (theStream r)") auto
  let ?r0 = "r\<lparr>theStream := s\<rparr>"
  have bs0: "0 < myBufferSize (theBuffer ?r0)" using bs by simp
  have p0: "pend ?r0 = aHeader @ CHR 0x0A # (unlines_nl (concat fs) @ rest)"
    using p tellg_avail [OF t] by (simp add: pend_def unlines_nl_def)
  from ReadLine_line [OF bs0 p0 h] obtain r1 where
    l1: "ReadLine ?r0 = (Some aHeader, r1)" and p1: "pend r1 = unlines_nl (concat fs) @ rest"
    and o1: "myBufferSize (theBuffer r1) = myBufferSize (theBuffer ?r0)"
      "calls r1 = calls ?r0" "msgs r1 = msgs ?r0"
    by blast
  from bs0 o1 have bs1: "0 < myBufferSize (theBuffer r1)" by simp
  let ?L0 = "\<lparr>aMergeToolA = MergeNodeTool, aNbLine = 1, aProgressPos = aStartPos + aStepB\<rparr>"
  from ReadAscii_loop_facets [OF bs1 nb gf p1, of ?L0] obtain L' r' where
    lp: "ReadAscii_loop E (?L0, r1) = ReadAscii_loop E (L', r')" and p': "pend r' = rest"
    and o': "myBufferSize (theBuffer r') = myBufferSize (theBuffer r1)" "msgs r' = msgs r1"
      "(aMergeToolA L', calls r') = decode_facets E fs (aMergeToolA ?L0, calls r1)"
      "aNbLine L' = aNbLine ?L0 + 7 * of_nat (length fs)"
    by blast
  have "ReadAscii E r = (fst (ReadAscii_loop E (L', r')), snd (snd (ReadAscii_loop E (L', r'))))"
    by (simp add: ReadAscii_def t l1 lp split: prod.splits)
  then show thesis
    by (rule that [OF _ p']) (use o' o1 in simp_all)
qed


lemma ReadAscii_block_last:
  assumes bs: "0 < myBufferSize (theBuffer r)"
    and nb: "\<forall>n. \<not> UserBreak E n"
    and h: "CHR 0x0A \<notin> set aHeader"
    and gf: "\<forall>ls \<in> set fs. good_facet E ls"
    and p: "pend r = unlines_nl (aHeader # concat fs) @ rest"
    and k: "\<And>L0 r0. 0 < myBufferSize (theBuffer r0) \<Longrightarrow> pend r0 = rest \<Longrightarrow>
              aNbLine L0 = 1 + 7 * of_nat (length fs) \<Longrightarrow>
              \<exists>r1. ReadAscii_keywords E (L0, r0) = (out, L0, r1) \<and> msgs r1 = msgs r0 @ ms
                    \<and> calls r1 = calls r0 \<and> (fl \<longrightarrow> fail (theStream r1))"
    and out: "out \<noteq> Continue"
  shows "fst (ReadAscii E r) = (out = Break)
         \<and> msgs (snd (ReadAscii E r)) = msgs r @ ms
         \<and> calls (snd (ReadAscii E r)) = snd (decode_facets E fs (MergeNodeTool, calls r))
         \<and> (fl \<longrightarrow> fail (theStream (snd (ReadAscii E r))))"
proof -
  from ReadAscii_block [OF bs nb h gf p] obtain L' r' where
    b: "ReadAscii E r = (fst (ReadAscii_loop E (L', r')), snd (snd (ReadAscii_loop E (L', r'))))"
    and p': "pend r' = rest"
    and o': "myBufferSize (theBuffer r') = myBufferSize (theBuffer r)" "msgs r' = msgs r"
      "(aMergeToolA L', calls r') = decode_facets E fs (MergeNodeTool, calls r)"
      "aNbLine L' = 1 + 7 * of_nat (length fs)"
    by blast
  let ?r1 = "r'\<lparr>polls := Suc (polls r')\<rparr>"
  obtain L0 r0 where pr: "ReadAscii_progress (L', ?r1) = (L0, r0)"
    by (cases "ReadAscii_progress (L', ?r1)") auto
  note o = ReadAscii_progress_obs [OF pr]
  have "0 < myBufferSize (theBuffer r0)" "pend r0 = rest" "aNbLine L0 = 1 + 7 * of_nat (length fs)"
    using o o' bs p' by simp_all
  from k [OF this] obtain r1 where
    kk: "ReadAscii_keywords E (L0, r0) = (out, L0, r1)" "msgs r1 = msgs r0 @ ms"
      "calls r1 = calls r0" "fl \<longrightarrow> fail (theStream r1)"
    by blast
  from kk(1) pr have "ReadAscii_keywords E (ReadAscii_progress (L', ?r1)) = (out, L0, r1)"
    by simp
  note last = ReadAscii_loop_last [OF nb this out]
  have "calls r' = snd (decode_facets E fs (MergeNodeTool, calls r))"
    using o'(3) by (metis snd_conv)
  with last kk o o' show ?thesis
    unfolding b by simp
qed

lemma Read_text:
  assumes "length bytes < 134 \<or> \<not> has_non_ascii (take 134 bytes)"
    and "\<not> fst (ReadAscii E (reader_on THE_BUFFER_SIZE bytes))"
  shows "Read E (Some bytes) =
           (\<not> fail (theStream (snd (ReadAscii E (reader_on THE_BUFFER_SIZE bytes)))),
            calls (snd (ReadAscii E (reader_on THE_BUFFER_SIZE bytes))),
            msgs (snd (ReadAscii E (reader_on THE_BUFFER_SIZE bytes))))"
proof -
  have d: "Read_isAscii (length bytes) (open_stream bytes) = (True, open_stream bytes, [])"
  proof (cases "length bytes < 134")
    case True
    then show ?thesis
      by (simp add: Read_isAscii_def THE_STL_MIN_FILE_SIZE_def THE_STL_HEADER_SIZE_def
          THE_STL_SIZEOF_FACET_def)
  next
    case False
    with assms show ?thesis
      by (simp add: Read_isAscii_def THE_STL_MIN_FILE_SIZE_def THE_STL_HEADER_SIZE_def
          THE_STL_SIZEOF_FACET_def IsAscii_probe)
  qed
  have g: "good (theStream (reader_on THE_BUFFER_SIZE bytes))"
    by (simp add: reader_on_def open_stream_def good_def)
  have "Read_loop E True (reader_on THE_BUFFER_SIZE bytes) =
      snd (ReadAscii E (reader_on THE_BUFFER_SIZE bytes))"
    using g assms(2)
    by (subst Read_loop.simps) (cases "ReadAscii E (reader_on THE_BUFFER_SIZE bytes)", simp)
  then show ?thesis
    by (simp add: Read_def d reader_on_def Let_def)
qed

lemma pend_reader_on: "pend (reader_on n bytes) = bytes"
  by (simp add: pend_def reader_on_def avail_def good_def open_stream_def)

lemma Read_text_premature:
  assumes nb: "\<forall>n. \<not> UserBreak E n"
    and h: "CHR 0x0A \<notin> set aHeader"
    and gf: "\<forall>ls \<in> set fs. good_facet E ls"
    and b: "bytes = unlines_nl (aHeader # concat fs)"
    and t: "length bytes < 134 \<or> \<not> has_non_ascii (take 134 bytes)"
  shows "Read E (Some bytes) =
           (False, snd (decode_facets E fs (MergeNodeTool, [])), [Premature_end_of_file])"
proof -
  let ?r = "reader_on THE_BUFFER_SIZE bytes"
  have bs: "0 < myBufferSize (theBuffer ?r)"
    by (simp add: reader_on_def THE_BUFFER_SIZE_def)
  have p: "pend ?r = unlines_nl (aHeader # concat fs) @ []"
    by (simp add: pend_reader_on b)
  have k: "\<exists>r1. ReadAscii_keywords E (L0, r0) = (Return_false, L0, r1)
      \<and> msgs r1 = msgs r0 @ [Premature_end_of_file]
      \<and> calls r1 = calls r0 \<and> (True \<longrightarrow> fail (theStream r1))"
    if "0 < myBufferSize (theBuffer r0)" "pend r0 = []" for L0 r0
    using ReadAscii_keywords_eof [OF that, of E L0] by (metis (full_types))
  have "fst (ReadAscii E ?r) = (Return_false = Break)
         \<and> msgs (snd (ReadAscii E ?r)) = msgs ?r @ [Premature_end_of_file]
         \<and> calls (snd (ReadAscii E ?r)) = snd (decode_facets E fs (MergeNodeTool, calls ?r))
         \<and> (True \<longrightarrow> fail (theStream (snd (ReadAscii E ?r))))"
    by (rule ReadAscii_block_last [OF bs nb h gf p]) (use k in simp_all)
  then have r: "\<not> fst (ReadAscii E ?r)" "msgs (snd (ReadAscii E ?r)) = [Premature_end_of_file]"
    "calls (snd (ReadAscii E ?r)) = snd (decode_facets E fs (MergeNodeTool, []))"
    "fail (theStream (snd (ReadAscii E ?r)))"
    by (simp_all add: reader_on_def)
  show ?thesis
    unfolding Read_text [OF t r(1)] using r by simp
qed


subsection \<open>The text reader on well-formed and ill-formed blocks\<close>

lemmas example_defs = example_env_def example_Strtod_def example_hash_def example_sink_def
  isdigit_def

lemmas text_defs = str_starts_with_def strncasecmp_def cstr_def isspace_def isalpha_def
  tolower_def ReadVertex_def Let_def

lemma example_no_break: "\<forall>n. \<not> UserBreak example_env n"
  by (simp add: example_env_def)

lemma good_example_facet: "good_facet example_env example_facet"
  by (simp add: example_facet_def example_defs text_defs)

lemma good_example_facet_junk: "good_facet example_env example_facet_junk"
  by (simp add: example_facet_junk_def example_defs text_defs)

lemma good_example_facet_flat: "good_facet example_env example_facet_flat"
  by (simp add: example_facet_flat_def example_defs text_defs)

lemma vertices_example_facet:
  "facet_vertices example_env example_facet = ((0, 0, 0), (1, 0, 0), (0, 1, 0))"
  by (simp add: example_facet_def example_defs text_defs)

lemma vertices_example_facet_junk:
  "facet_vertices example_env example_facet_junk = ((0, 0, 0), (1, 0, 0), (0, 1, 0))"
  by (simp add: example_facet_junk_def example_defs text_defs)

lemma vertices_example_facet_flat:
  "facet_vertices example_env example_facet_flat = ((1, 0, 0), (1, 0, 0), (0, 1, 0))"
  by (simp add: example_facet_flat_def example_defs text_defs)

lemmas node_defs = add_triangle_def AddNode_def Find_def Bind_def MergeNodeTool_def
  count_AddNode_def HashCode_def IsEqual_def SquareModulus_def XYZ_minus_def
  SquareConfusion_def M_LN10_def M_PI_def M_E_def

lemma add_triangle_example:
  "add_triangle example_env ((0, 0, 0), (1, 0, 0), (0, 1, 0)) (MergeNodeTool, []) =
     (\<lparr>NbBuckets = 1024, myData = [((0, 1, 0), 2), ((1, 0, 0), 1), ((0, 0, 0), 0)]\<rparr>,
      [AddNode_call (0, 0, 0) 0, AddNode_call (1, 0, 0) 1, AddNode_call (0, 1, 0) 2,
       AddTriangle_call 0 1 2])"
  by (simp add: node_defs example_defs)

lemma add_triangle_example_flat:
  "add_triangle example_env ((1, 0, 0), (1, 0, 0), (0, 1, 0))
     (\<lparr>NbBuckets = 1024, myData = [((0, 1, 0), 2), ((1, 0, 0), 1), ((0, 0, 0), 0)]\<rparr>,
      [AddNode_call (0, 0, 0) 0, AddNode_call (1, 0, 0) 1, AddNode_call (0, 1, 0) 2,
       AddTriangle_call 0 1 2]) =
     (\<lparr>NbBuckets = 1024, myData = [((0, 1, 0), 2), ((1, 0, 0), 1), ((0, 0, 0), 0)]\<rparr>,
      [AddNode_call (0, 0, 0) 0, AddNode_call (1, 0, 0) 1, AddNode_call (0, 1, 0) 2,
       AddTriangle_call 0 1 2])"
  by (simp add: node_defs example_defs)

lemma decode_example:
  "decode_facets example_env [example_facet] (MergeNodeTool, []) =
     (\<lparr>NbBuckets = 1024, myData = [((0, 1, 0), 2), ((1, 0, 0), 1), ((0, 0, 0), 0)]\<rparr>,
      [AddNode_call (0, 0, 0) 0, AddNode_call (1, 0, 0) 1, AddNode_call (0, 1, 0) 2,
       AddTriangle_call 0 1 2])"
  by (simp add: vertices_example_facet add_triangle_example)

lemma decode_example_junk:
  "decode_facets example_env [example_facet_junk] (MergeNodeTool, []) =
     (\<lparr>NbBuckets = 1024, myData = [((0, 1, 0), 2), ((1, 0, 0), 1), ((0, 0, 0), 0)]\<rparr>,
      [AddNode_call (0, 0, 0) 0, AddNode_call (1, 0, 0) 1, AddNode_call (0, 1, 0) 2,
       AddTriangle_call 0 1 2])"
  by (simp add: vertices_example_facet_junk add_triangle_example)

lemma decode_example_flat:
  "decode_facets example_env [example_facet, example_facet_flat] (MergeNodeTool, []) =
     (\<lparr>NbBuckets = 1024, myData = [((0, 1, 0), 2), ((1, 0, 0), 1), ((0, 0, 0), 0)]\<rparr>,
      [AddNode_call (0, 0, 0) 0, AddNode_call (1, 0, 0) 1, AddNode_call (0, 1, 0) 2,
       AddTriangle_call 0 1 2])"
  by (simp add: vertices_example_facet vertices_example_facet_flat add_triangle_example
      add_triangle_example_flat)


lemma ReadAscii_keywords_endsolid:
  assumes bs: "0 < myBufferSize (theBuffer r)"
    and p: "pend r = l @ CHR 0x0A # rest" and nl: "CHR 0x0A \<notin> set l"
    and kw: "str_starts_with l ''endsolid'' 8"
  obtains r' where "ReadAscii_keywords E (L, r) = (Break, L, r')"
    and "msgs r' = msgs r" and "calls r' = calls r"
proof -
  from ReadLine_line [OF bs p nl] obtain r1 where
    l: "ReadLine r = (Some l, r1)" and o: "calls r1 = calls r" "msgs r1 = msgs r"
    by blast
  show thesis
    by (rule that [of r1]) (use l o kw in \<open>simp_all add: ReadAscii_keywords_def\<close>)
qed

text \<open>
  C5 (amended). A text stream that ends right after the lines of a facet, with no
  \<^verbatim>\<open>endsolid\<close> line, makes the text parser send "premature end of file" and \<^verbatim>\<open>Read\<close>
  return false; the calls made for the facets read before are all there.
\<close>

theorem Read_text_ending_after_endfacet:
  assumes "\<forall>n. \<not> UserBreak E n"
    and "CHR 0x0A \<notin> set aHeader"
    and "\<forall>ls \<in> set fs. good_facet E ls"
    and "bytes = unlines_nl (aHeader # concat fs)"
    and "length bytes < 134 \<or> \<not> has_non_ascii (take 134 bytes)"
  shows "Read E (Some bytes) =
           (False, snd (decode_facets E fs (MergeNodeTool, [])), [Premature_end_of_file])"
  using assms by (rule Read_text_premature)

theorem Read_text_ending_after_endfacet_witness:
  "Read example_env
     (Some (unlines_nl (''solid a'' # concat [example_facet, example_facet_flat]))) =
     (False,
      [AddNode_call (0, 0, 0) 0, AddNode_call (1, 0, 0) 1, AddNode_call (0, 1, 0) 2,
       AddTriangle_call 0 1 2],
      [Premature_end_of_file])"
proof -
  have t: "length (unlines_nl (''solid a'' # concat [example_facet, example_facet_flat])) < 134
      \<or> \<not> has_non_ascii (take 134 (unlines_nl (''solid a'' # concat [example_facet, example_facet_flat])))"
    by (simp add: unlines_nl_def example_facet_def example_facet_flat_def)
  have g: "\<forall>ls \<in> set [example_facet, example_facet_flat]. good_facet example_env ls"
    by (simp add: good_example_facet good_example_facet_flat)
  have h: "CHR 0x0A \<notin> set ''solid a''"
    by simp
  show ?thesis
    using Read_text_ending_after_endfacet [OF example_no_break h g refl t,
        unfolded decode_example_flat]
    by simp
qed

theorem Read_text_ending_after_endfacet_counterexample:
  "Read example_env
     (Some ''solid a\<newline>facet normal 0 0 1\<newline>outer loop\<newline>vertex 0 0 0\<newline>vertex 1 0 0\<newline>vertex 0 1 0\<newline>endloop\<newline>endfacet\<newline>'') =
     (False,
      [AddNode_call (0, 0, 0) 0, AddNode_call (1, 0, 0) 1, AddNode_call (0, 1, 0) 2,
       AddTriangle_call 0 1 2],
      [Premature_end_of_file])"
proof -
  let ?bytes = "''solid a\<newline>facet normal 0 0 1\<newline>outer loop\<newline>vertex 0 0 0\<newline>vertex 1 0 0\<newline>vertex 0 1 0\<newline>endloop\<newline>endfacet\<newline>''"
  have b: "?bytes = unlines_nl (''solid a'' # concat [example_facet])"
    by (simp add: unlines_nl_def example_facet_def)
  have t: "length ?bytes < 134 \<or> \<not> has_non_ascii (take 134 ?bytes)"
    by simp
  have g: "\<forall>ls \<in> set [example_facet]. good_facet example_env ls"
    by (simp add: good_example_facet)
  have h: "CHR 0x0A \<notin> set ''solid a''"
    by simp
  show ?thesis
    using Read_text_premature [OF example_no_break h g b t, unfolded decode_example]
    by simp
qed

text \<open>
  C6. When the data end where one of the three vertex lines of a facet is expected
  (after the lines "facet" and "outer loop" and at most two readable vertex lines),
  the text parser leaves the loop without a message and returns \<^verbatim>\<open>aPS.More()\<close>, which is
  true when no user break is pending; the calls made for the facets read before are kept.
\<close>

theorem ReadAscii_end_of_file_at_vertex_line:
  assumes bs: "0 < myBufferSize (theBuffer r)"
    and nb: "\<forall>n. \<not> UserBreak E n"
    and h: "CHR 0x0A \<notin> set aHeader"
    and gf: "\<forall>ls \<in> set fs. good_facet E ls"
    and p: "pend r = unlines_nl (aHeader # concat fs) @ unlines_nl ([aFacet, aOuter] @ vs)"
    and nl: "CHR 0x0A \<notin> set aFacet" "CHR 0x0A \<notin> set aOuter"
    and kw: "\<not> str_starts_with aFacet ''endsolid'' 8" "str_starts_with aFacet ''facet'' 5"
      "str_starts_with aOuter ''outer'' 5"
    and n: "length vs < 3"
    and ok: "\<forall>v \<in> set vs. CHR 0x0A \<notin> set v \<and> fst (ReadVertex E v)"
  shows "fst (ReadAscii E r)
         \<and> msgs (snd (ReadAscii E r)) = msgs r
         \<and> calls (snd (ReadAscii E r)) = snd (decode_facets E fs (MergeNodeTool, calls r))"
proof -
  have k: "\<exists>r1. ReadAscii_keywords E (L0, r0) = (Break, L0, r1) \<and> msgs r1 = msgs r0 @ []
      \<and> calls r1 = calls r0 \<and> (False \<longrightarrow> fail (theStream r1))"
    if "0 < myBufferSize (theBuffer r0)" "pend r0 = unlines_nl ([aFacet, aOuter] @ vs)" for L0 r0
    using ReadAscii_keywords_vertex_eof [OF that nl kw n ok, of L0] by (metis append_Nil2)
  have "fst (ReadAscii E r) = (Break = Break)
         \<and> msgs (snd (ReadAscii E r)) = msgs r @ []
         \<and> calls (snd (ReadAscii E r)) = snd (decode_facets E fs (MergeNodeTool, calls r))
         \<and> (False \<longrightarrow> fail (theStream (snd (ReadAscii E r))))"
    by (rule ReadAscii_block_last [OF bs nb h gf p]) (use k in simp_all)
  then show ?thesis by simp
qed

theorem ReadAscii_end_of_file_at_vertex_line_witness:
  "fst (ReadAscii example_env (reader_on 1024
      ''solid a\<newline>facet normal 0 0 1\<newline>outer loop\<newline>vertex 0 0 0\<newline>vertex 1 0 0\<newline>vertex 0 1 0\<newline>endloop\<newline>endfacet\<newline>facet normal 0 0 1\<newline>outer loop\<newline>vertex 5 5 5\<newline>''))
   \<and> msgs (snd (ReadAscii example_env (reader_on 1024
      ''solid a\<newline>facet normal 0 0 1\<newline>outer loop\<newline>vertex 0 0 0\<newline>vertex 1 0 0\<newline>vertex 0 1 0\<newline>endloop\<newline>endfacet\<newline>facet normal 0 0 1\<newline>outer loop\<newline>vertex 5 5 5\<newline>''))) = []
   \<and> calls (snd (ReadAscii example_env (reader_on 1024
      ''solid a\<newline>facet normal 0 0 1\<newline>outer loop\<newline>vertex 0 0 0\<newline>vertex 1 0 0\<newline>vertex 0 1 0\<newline>endloop\<newline>endfacet\<newline>facet normal 0 0 1\<newline>outer loop\<newline>vertex 5 5 5\<newline>''))) =
      [AddNode_call (0, 0, 0) 0, AddNode_call (1, 0, 0) 1, AddNode_call (0, 1, 0) 2,
       AddTriangle_call 0 1 2]"
proof -
  let ?bytes = "''solid a\<newline>facet normal 0 0 1\<newline>outer loop\<newline>vertex 0 0 0\<newline>vertex 1 0 0\<newline>vertex 0 1 0\<newline>endloop\<newline>endfacet\<newline>facet normal 0 0 1\<newline>outer loop\<newline>vertex 5 5 5\<newline>''"
  let ?r = "reader_on 1024 ?bytes"
  have bs: "0 < myBufferSize (theBuffer ?r)"
    by (simp add: reader_on_def)
  have p: "pend ?r = unlines_nl (''solid a'' # concat [example_facet])
      @ unlines_nl ([''facet normal 0 0 1'', ''outer loop''] @ [''vertex 5 5 5''])"
    by (simp add: pend_reader_on unlines_nl_def example_facet_def)
  have g: "\<forall>ls \<in> set [example_facet]. good_facet example_env ls"
    by (simp add: good_example_facet)
  have h: "CHR 0x0A \<notin> set ''solid a''" "CHR 0x0A \<notin> set ''facet normal 0 0 1''"
    "CHR 0x0A \<notin> set ''outer loop''"
    by simp_all
  have kw: "\<not> str_starts_with ''facet normal 0 0 1'' ''endsolid'' 8"
    "str_starts_with ''facet normal 0 0 1'' ''facet'' 5"
    "str_starts_with ''outer loop'' ''outer'' 5"
    by (simp_all add: text_defs)
  have n: "length [''vertex 5 5 5''] < 3"
    by simp
  have ok: "\<forall>v \<in> set [''vertex 5 5 5'']. CHR 0x0A \<notin> set v \<and> fst (ReadVertex example_env v)"
    by (simp add: example_defs text_defs)
  show ?thesis
    using ReadAscii_end_of_file_at_vertex_line [OF bs example_no_break h(1) g p h(2,3) kw n ok]
    by (simp add: reader_on_def vertices_example_facet add_triangle_example)
qed


text \<open>The line counter read as a signed number, while the line numbers fit 32 bits.\<close>

lemma sint_word_of_int_fits:
  "- (2 ^ 31) \<le> k \<Longrightarrow> k < 2 ^ 31 \<Longrightarrow> sint (word_of_int k :: 32 word) = k"
  by (simp add: sint_sbintrunc' signed_take_bit_int_eq_self)

lemma sint_line_number:
  assumes "2 + 7 * n < (2 ^ 31 :: nat)"
  shows "sint (2 + 7 * word_of_nat n :: 32 word) = 2 + 7 * int n"
  using sint_word_of_int_fits [of "2 + 7 * int n"] assms by simp

text \<open>
  C8 (amended). After any number of well-formed facets, a line at the position of
  "facet" that begins neither with \<^verbatim>\<open>facet\<close> nor with \<^verbatim>\<open>endsolid\<close>, and a line at the
  position of "outer loop" that is missing or does not begin with \<^verbatim>\<open>outer\<close>, make the
  text parser return false with the message "unexpected format of facet at line n",
  where n is the number of the line at the position of "facet", as long as this number
  fits the 32-bit \<^verbatim>\<open>int\<close> that counts the lines (it is below \<open>2 ^ 31\<close>). The two lines that
  close a facet are read and not compared with anything: a well-formed facet here is
  one with any two lines at these positions.
\<close>

theorem ReadAscii_unexpected_keyword:
  assumes bs: "0 < myBufferSize (theBuffer r)"
    and nb: "\<forall>n. \<not> UserBreak E n"
    and h: "CHR 0x0A \<notin> set aHeader"
    and gf: "\<forall>ls \<in> set fs. good_facet E ls"
    and p: "pend r = unlines_nl (aHeader # concat fs) @ rest"
    and fits: "2 + 7 * length fs < 2 ^ 31"
    and bad:
      "(\<exists>l rest'. rest = l @ CHR 0x0A # rest' \<and> CHR 0x0A \<notin> set l
          \<and> \<not> str_starts_with l ''endsolid'' 8 \<and> \<not> str_starts_with l ''facet'' 5)
       \<or> (\<exists>aFacet rest1. rest = aFacet @ CHR 0x0A # rest1 \<and> CHR 0x0A \<notin> set aFacet
            \<and> \<not> str_starts_with aFacet ''endsolid'' 8 \<and> str_starts_with aFacet ''facet'' 5
            \<and> (rest1 = [] \<or> (\<exists>l rest'. rest1 = l @ CHR 0x0A # rest' \<and> CHR 0x0A \<notin> set l
                  \<and> \<not> str_starts_with l ''outer'' 5)))"
  shows "\<not> fst (ReadAscii E r)
         \<and> msgs (snd (ReadAscii E r)) =
             msgs r @ [Unexpected_format_of_facet (2 + 7 * int (length fs))]
         \<and> calls (snd (ReadAscii E r)) = snd (decode_facets E fs (MergeNodeTool, calls r))"
proof -
  have k: "\<exists>r1. ReadAscii_keywords E (L0, r0) = (Return_false, L0, r1)
      \<and> msgs r1 = msgs r0 @ [Unexpected_format_of_facet (2 + 7 * int (length fs))]
      \<and> calls r1 = calls r0 \<and> (False \<longrightarrow> fail (theStream r1))"
    if a: "0 < myBufferSize (theBuffer r0)" "pend r0 = rest"
      "aNbLine L0 = 1 + 7 * of_nat (length fs)" for L0 r0
    using bad
  proof
    assume "\<exists>l rest'. rest = l @ CHR 0x0A # rest' \<and> CHR 0x0A \<notin> set l
          \<and> \<not> str_starts_with l ''endsolid'' 8 \<and> \<not> str_starts_with l ''facet'' 5"
    then obtain l rest' where r: "rest = l @ CHR 0x0A # rest'" "CHR 0x0A \<notin> set l"
      "\<not> str_starts_with l ''endsolid'' 8" "\<not> str_starts_with l ''facet'' 5"
      by blast
    from a(2) r(1) have "pend r0 = l @ CHR 0x0A # rest'" by simp
    from ReadAscii_keywords_bad_facet [OF a(1) this r(2,3,4), of E L0] obtain r1 where
      "ReadAscii_keywords E (L0, r0) = (Return_false, L0, r1)"
      "msgs r1 = msgs r0 @ [Unexpected_format_of_facet (sint (aNbLine L0 + 1))]" "calls r1 = calls r0"
      by blast
    with a(3) sint_line_number [OF fits] show ?thesis by simp
  next
    assume "\<exists>aFacet rest1. rest = aFacet @ CHR 0x0A # rest1 \<and> CHR 0x0A \<notin> set aFacet
            \<and> \<not> str_starts_with aFacet ''endsolid'' 8 \<and> str_starts_with aFacet ''facet'' 5
            \<and> (rest1 = [] \<or> (\<exists>l rest'. rest1 = l @ CHR 0x0A # rest' \<and> CHR 0x0A \<notin> set l
                  \<and> \<not> str_starts_with l ''outer'' 5))"
    then obtain aFacet rest1 where r: "rest = aFacet @ CHR 0x0A # rest1"
      "CHR 0x0A \<notin> set aFacet"
      "\<not> str_starts_with aFacet ''endsolid'' 8" "str_starts_with aFacet ''facet'' 5"
      "rest1 = [] \<or> (\<exists>l rest'. rest1 = l @ CHR 0x0A # rest' \<and> CHR 0x0A \<notin> set l
                  \<and> \<not> str_starts_with l ''outer'' 5)"
      by blast
    from a(2) r(1) have "pend r0 = aFacet @ CHR 0x0A # rest1" by simp
    from ReadAscii_keywords_bad_outer [OF a(1) this r(2,3,4,5), of E L0] obtain r1 where
      "ReadAscii_keywords E (L0, r0) = (Return_false, L0, r1)"
      "msgs r1 = msgs r0 @ [Unexpected_format_of_facet (sint (aNbLine L0 + 1))]" "calls r1 = calls r0"
      by blast
    with a(3) sint_line_number [OF fits] show ?thesis by simp
  qed
  have "fst (ReadAscii E r) = (Return_false = Break)
         \<and> msgs (snd (ReadAscii E r)) =
             msgs r @ [Unexpected_format_of_facet (2 + 7 * int (length fs))]
         \<and> calls (snd (ReadAscii E r)) = snd (decode_facets E fs (MergeNodeTool, calls r))
         \<and> (False \<longrightarrow> fail (theStream (snd (ReadAscii E r))))"
    by (rule ReadAscii_block_last [OF bs nb h gf p]) (use k in simp_all)
  then show ?thesis by simp
qed

theorem ReadAscii_unexpected_keyword_witness:
  "\<not> fst (ReadAscii example_env (reader_on 1024
      ''solid a\<newline>facet normal 0 0 1\<newline>outer loop\<newline>vertex 0 0 0\<newline>vertex 1 0 0\<newline>vertex 0 1 0\<newline>endloop\<newline>endfacet\<newline>facet normal 0 0 1\<newline>inner loop\<newline>vertex 5 5 5\<newline>''))
   \<and> msgs (snd (ReadAscii example_env (reader_on 1024
      ''solid a\<newline>facet normal 0 0 1\<newline>outer loop\<newline>vertex 0 0 0\<newline>vertex 1 0 0\<newline>vertex 0 1 0\<newline>endloop\<newline>endfacet\<newline>facet normal 0 0 1\<newline>inner loop\<newline>vertex 5 5 5\<newline>''))) =
      [Unexpected_format_of_facet 9]
   \<and> calls (snd (ReadAscii example_env (reader_on 1024
      ''solid a\<newline>facet normal 0 0 1\<newline>outer loop\<newline>vertex 0 0 0\<newline>vertex 1 0 0\<newline>vertex 0 1 0\<newline>endloop\<newline>endfacet\<newline>facet normal 0 0 1\<newline>inner loop\<newline>vertex 5 5 5\<newline>''))) =
      [AddNode_call (0, 0, 0) 0, AddNode_call (1, 0, 0) 1, AddNode_call (0, 1, 0) 2,
       AddTriangle_call 0 1 2]"
proof -
  let ?bytes = "''solid a\<newline>facet normal 0 0 1\<newline>outer loop\<newline>vertex 0 0 0\<newline>vertex 1 0 0\<newline>vertex 0 1 0\<newline>endloop\<newline>endfacet\<newline>facet normal 0 0 1\<newline>inner loop\<newline>vertex 5 5 5\<newline>''"
  let ?r = "reader_on 1024 ?bytes"
  let ?rest = "''facet normal 0 0 1\<newline>inner loop\<newline>vertex 5 5 5\<newline>''"
  have bs: "0 < myBufferSize (theBuffer ?r)"
    by (simp add: reader_on_def)
  have p: "pend ?r = unlines_nl (''solid a'' # concat [example_facet]) @ ?rest"
    by (simp add: pend_reader_on unlines_nl_def example_facet_def)
  have g: "\<forall>ls \<in> set [example_facet]. good_facet example_env ls"
    by (simp add: good_example_facet)
  have h: "CHR 0x0A \<notin> set ''solid a''"
    by simp
  have "?rest = ''facet normal 0 0 1'' @ CHR 0x0A # ''inner loop\<newline>vertex 5 5 5\<newline>''
      \<and> CHR 0x0A \<notin> set ''facet normal 0 0 1''
      \<and> \<not> str_starts_with ''facet normal 0 0 1'' ''endsolid'' 8
      \<and> str_starts_with ''facet normal 0 0 1'' ''facet'' 5
      \<and> (''inner loop\<newline>vertex 5 5 5\<newline>'' = []
          \<or> (\<exists>l rest'. ''inner loop\<newline>vertex 5 5 5\<newline>'' = l @ CHR 0x0A # rest'
                \<and> CHR 0x0A \<notin> set l \<and> \<not> str_starts_with l ''outer'' 5))"
  proof -
    have "''inner loop\<newline>vertex 5 5 5\<newline>'' = ''inner loop'' @ CHR 0x0A # ''vertex 5 5 5\<newline>''
      \<and> CHR 0x0A \<notin> set ''inner loop'' \<and> \<not> str_starts_with ''inner loop'' ''outer'' 5"
      by (simp add: text_defs)
    then have "\<exists>l rest'. ''inner loop\<newline>vertex 5 5 5\<newline>'' = l @ CHR 0x0A # rest'
                \<and> CHR 0x0A \<notin> set l \<and> \<not> str_starts_with l ''outer'' 5"
      by blast
    then show ?thesis
      by (simp add: text_defs)
  qed
  then have bad: "(\<exists>l rest'. ?rest = l @ CHR 0x0A # rest' \<and> CHR 0x0A \<notin> set l
          \<and> \<not> str_starts_with l ''endsolid'' 8 \<and> \<not> str_starts_with l ''facet'' 5)
       \<or> (\<exists>aFacet rest1. ?rest = aFacet @ CHR 0x0A # rest1 \<and> CHR 0x0A \<notin> set aFacet
            \<and> \<not> str_starts_with aFacet ''endsolid'' 8 \<and> str_starts_with aFacet ''facet'' 5
            \<and> (rest1 = [] \<or> (\<exists>l rest'. rest1 = l @ CHR 0x0A # rest' \<and> CHR 0x0A \<notin> set l
                  \<and> \<not> str_starts_with l ''outer'' 5)))"
    by blast
  have fits: "2 + 7 * length [example_facet] < 2 ^ 31"
    by simp
  show ?thesis
    using ReadAscii_unexpected_keyword [OF bs example_no_break h g p fits bad]
    by (simp add: reader_on_def vertices_example_facet add_triangle_example)
qed

theorem ReadAscii_unexpected_keyword_counterexample:
  "fst (ReadAscii example_env (reader_on 1024
      ''solid a\<newline>facet normal 0 0 1\<newline>outer loop\<newline>vertex 0 0 0\<newline>vertex 1 0 0\<newline>vertex 0 1 0\<newline>junk\<newline>more junk\<newline>endsolid a\<newline>''))
   \<and> msgs (snd (ReadAscii example_env (reader_on 1024
      ''solid a\<newline>facet normal 0 0 1\<newline>outer loop\<newline>vertex 0 0 0\<newline>vertex 1 0 0\<newline>vertex 0 1 0\<newline>junk\<newline>more junk\<newline>endsolid a\<newline>''))) = []
   \<and> calls (snd (ReadAscii example_env (reader_on 1024
      ''solid a\<newline>facet normal 0 0 1\<newline>outer loop\<newline>vertex 0 0 0\<newline>vertex 1 0 0\<newline>vertex 0 1 0\<newline>junk\<newline>more junk\<newline>endsolid a\<newline>''))) =
      [AddNode_call (0, 0, 0) 0, AddNode_call (1, 0, 0) 1, AddNode_call (0, 1, 0) 2,
       AddTriangle_call 0 1 2]"
proof -
  let ?bytes = "''solid a\<newline>facet normal 0 0 1\<newline>outer loop\<newline>vertex 0 0 0\<newline>vertex 1 0 0\<newline>vertex 0 1 0\<newline>junk\<newline>more junk\<newline>endsolid a\<newline>''"
  let ?r = "reader_on 1024 ?bytes"
  have bs: "0 < myBufferSize (theBuffer ?r)"
    by (simp add: reader_on_def)
  have p: "pend ?r = unlines_nl (''solid a'' # concat [example_facet_junk]) @ ''endsolid a\<newline>''"
    by (simp add: pend_reader_on unlines_nl_def example_facet_junk_def)
  have g: "\<forall>ls \<in> set [example_facet_junk]. good_facet example_env ls"
    by (simp add: good_example_facet_junk)
  have h: "CHR 0x0A \<notin> set ''solid a''"
    by simp
  have e: "''endsolid a\<newline>'' = ''endsolid a'' @ CHR 0x0A # []" "CHR 0x0A \<notin> set ''endsolid a''"
    "str_starts_with ''endsolid a'' ''endsolid'' 8"
    by (simp_all add: text_defs)
  have k: "\<exists>r1. ReadAscii_keywords example_env (L0, r0) = (Break, L0, r1)
      \<and> msgs r1 = msgs r0 @ [] \<and> calls r1 = calls r0 \<and> (False \<longrightarrow> fail (theStream r1))"
    if "0 < myBufferSize (theBuffer r0)" "pend r0 = ''endsolid a\<newline>''" for L0 r0
  proof -
    have "pend r0 = ''endsolid a'' @ CHR 0x0A # []"
      unfolding that(2) by simp
    from ReadAscii_keywords_endsolid [OF that(1) this e(2,3), of example_env L0] obtain r1 where
      "ReadAscii_keywords example_env (L0, r0) = (Break, L0, r1)" "msgs r1 = msgs r0"
      "calls r1 = calls r0"
      by blast
    then show ?thesis by simp
  qed
  have "fst (ReadAscii example_env ?r) = (Break = Break)
         \<and> msgs (snd (ReadAscii example_env ?r)) = msgs ?r @ []
         \<and> calls (snd (ReadAscii example_env ?r)) =
             snd (decode_facets example_env [example_facet_junk] (MergeNodeTool, calls ?r))
         \<and> (False \<longrightarrow> fail (theStream (snd (ReadAscii example_env ?r))))"
    by (rule ReadAscii_block_last [OF bs example_no_break h g p]) (use k in simp_all)
  then show ?thesis
    by (simp add: reader_on_def vertices_example_facet_junk add_triangle_example)
qed


text \<open>The binary reader on a triangle and the text reader on a facet with a repeated
  vertex.\<close>

lemma ieee_single_one: "ieee_single (le32 [CHR 0x00, CHR 0x00, CHR 0x80, CHR 0x3F]) = 1"
  by (simp add: ieee_single_def)

lemma ieee_single_zero: "ieee_single (le32 [CHR 0x00, CHR 0x00, CHR 0x00, CHR 0x00]) = 0"
  by (simp add: ieee_single_def)

lemma example_binary_facet_points:
  "readStlFloatVec3 example_env (drop (0 + aVec3Size) example_binary_facet) = (0, 0, 0)"
  "readStlFloatVec3 example_env (drop (0 + aVec3Size * 2) example_binary_facet) = (1, 0, 0)"
  "readStlFloatVec3 example_env (drop (0 + aVec3Size * 3) example_binary_facet) = (0, 1, 0)"
  by (simp_all add: example_binary_facet_def aVec3Size_def readStlFloatVec3_def readStlFloat_def
      example_env_def ieee_single_def)

theorem facet_emits_one_triangle_or_none_witness:
  "(case ReadBinary_facet example_env
           ((ReadBinary_start 1)\<lparr>aNbFacesInBuffer := 1, aBuffer := example_binary_facet\<rparr>,
            reader_on 1024 []) of
      (L', r') \<Rightarrow>
        aMergeTool L' =
          \<lparr>NbBuckets = 1024, myData = [((0, 1, 0), 2), ((1, 0, 0), 1), ((0, 0, 0), 0)]\<rparr>
        \<and> calls r' =
            [AddNode_call (0, 0, 0) 0, AddNode_call (1, 0, 0) 1, AddNode_call (0, 1, 0) 2,
             AddTriangle_call 0 1 2]
        \<and> count_AddTriangle (calls r') = 1
        \<and> msgs r' = [])
   \<and> (case ReadAscii_triangle example_env
             (\<lparr>aMergeToolA = MergeNodeTool, aNbLine = 1, aProgressPos = 0\<rparr>,
              reader_on 1024
                ''vertex 1 0 0\<newline>vertex 1 0 0\<newline>vertex 0 1 0\<newline>endloop\<newline>endfacet\<newline>'') of
        (out, L', r') \<Rightarrow>
          out = Continue
          \<and> aMergeToolA L' = \<lparr>NbBuckets = 1024, myData = [((0, 1, 0), 1), ((1, 0, 0), 0)]\<rparr>
          \<and> calls r' = [AddNode_call (1, 0, 0) 0, AddNode_call (0, 1, 0) 1]
          \<and> count_AddTriangle (calls r') = 0
          \<and> msgs r' = [])"
proof -
  let ?LB = "(ReadBinary_start 1)\<lparr>aNbFacesInBuffer := 1, aBuffer := example_binary_facet\<rparr>"
  let ?rB = "reader_on 1024 []"
  let ?LA = "\<lparr>aMergeToolA = MergeNodeTool, aNbLine = 1, aProgressPos = 0\<rparr>"
  let ?rA = "reader_on 1024
                ''vertex 1 0 0\<newline>vertex 1 0 0\<newline>vertex 0 1 0\<newline>endloop\<newline>endfacet\<newline>''"
  let ?m1 = "\<lparr>NbBuckets = 1024, myData = [((0, 0, 0), 0)]\<rparr>"
  let ?m2 = "\<lparr>NbBuckets = 1024, myData = [((1, 0, 0), 1), ((0, 0, 0), 0)]\<rparr>"
  let ?m3 = "\<lparr>NbBuckets = 1024, myData = [((0, 1, 0), 2), ((1, 0, 0), 1), ((0, 0, 0), 0)]\<rparr>"
  have LB: "aBufferPtr ?LB = 0" "aBuffer ?LB = example_binary_facet"
    "aMergeTool ?LB = MergeNodeTool" "calls ?rB = []" "msgs ?rB = []"
    by (simp_all add: ReadBinary_start_def reader_on_def)
  have b1: "AddNode example_env
      (readStlFloatVec3 example_env (drop (aBufferPtr ?LB + aVec3Size) (aBuffer ?LB)))
      (aMergeTool ?LB, calls ?rB) = (0, ?m1, [AddNode_call (0, 0, 0) 0])"
    unfolding LB example_binary_facet_points by (simp add: node_defs example_defs)
  have b2: "AddNode example_env
      (readStlFloatVec3 example_env (drop (aBufferPtr ?LB + aVec3Size * 2) (aBuffer ?LB)))
      (?m1, [AddNode_call (0, 0, 0) 0]) =
      (1, ?m2, [AddNode_call (0, 0, 0) 0, AddNode_call (1, 0, 0) 1])"
    unfolding LB example_binary_facet_points by (simp add: node_defs example_defs)
  have b3: "AddNode example_env
      (readStlFloatVec3 example_env (drop (aBufferPtr ?LB + aVec3Size * 3) (aBuffer ?LB)))
      (?m2, [AddNode_call (0, 0, 0) 0, AddNode_call (1, 0, 0) 1]) =
      (2, ?m3, [AddNode_call (0, 0, 0) 0, AddNode_call (1, 0, 0) 1, AddNode_call (0, 1, 0) 2])"
    unfolding LB example_binary_facet_points by (simp add: node_defs example_defs)
  have bs: "0 < myBufferSize (theBuffer ?rA)"
    by (simp add: reader_on_def)
  have p0: "pend ?rA = ''vertex 1 0 0'' @ CHR 0x0A
      # ''vertex 1 0 0\<newline>vertex 0 1 0\<newline>endloop\<newline>endfacet\<newline>''"
    by (simp add: pend_reader_on)
  have rv: "fst (ReadVertex example_env ''vertex 1 0 0'')"
    "snd (ReadVertex example_env ''vertex 1 0 0'') = (1, 0, 0)"
    "fst (ReadVertex example_env ''vertex 0 1 0'')"
    "snd (ReadVertex example_env ''vertex 0 1 0'') = (0, 1, 0)"
    by (simp_all add: example_defs text_defs)
  have nl: "CHR 0x0A \<notin> set ''vertex 1 0 0''" "CHR 0x0A \<notin> set ''vertex 0 1 0''"
    by simp_all
  from ReadAscii_vertex_line [OF bs p0 nl(1) rv(1)] obtain rA1 where
    v1: "ReadAscii_vertex example_env ?rA = (Vertex (1, 0, 0), rA1)"
    and p1: "pend rA1 = ''vertex 1 0 0\<newline>vertex 0 1 0\<newline>endloop\<newline>endfacet\<newline>''"
    and bs1: "myBufferSize (theBuffer rA1) = myBufferSize (theBuffer ?rA)"
    unfolding rv by blast
  have bs1': "0 < myBufferSize (theBuffer rA1)"
    using bs bs1 by simp
  have p1': "pend rA1 = ''vertex 1 0 0'' @ CHR 0x0A # ''vertex 0 1 0\<newline>endloop\<newline>endfacet\<newline>''"
    using p1 by simp
  from ReadAscii_vertex_line [OF bs1' p1' nl(1) rv(1)] obtain rA2 where
    v2: "ReadAscii_vertex example_env rA1 = (Vertex (1, 0, 0), rA2)"
    and p2: "pend rA2 = ''vertex 0 1 0\<newline>endloop\<newline>endfacet\<newline>''"
    and bs2: "myBufferSize (theBuffer rA2) = myBufferSize (theBuffer rA1)"
    unfolding rv by blast
  have bs2': "0 < myBufferSize (theBuffer rA2)"
    using bs1' bs2 by simp
  have p2': "pend rA2 = ''vertex 0 1 0'' @ CHR 0x0A # ''endloop\<newline>endfacet\<newline>''"
    using p2 by simp
  from ReadAscii_vertex_line [OF bs2' p2' nl(2) rv(3)] obtain rA3 where
    v3: "ReadAscii_vertex example_env rA2 = (Vertex (0, 1, 0), rA3)"
    unfolding rv by blast
  let ?n1 = "\<lparr>NbBuckets = 1024, myData = [((1, 0, 0), 0)]\<rparr>"
  let ?n3 = "\<lparr>NbBuckets = 1024, myData = [((0, 1, 0), 1), ((1, 0, 0), 0)]\<rparr>"
  have LA: "aMergeToolA ?LA = MergeNodeTool" "calls ?rA = []" "msgs ?rA = []"
    by (simp_all add: reader_on_def)
  have a1: "AddNode example_env (1, 0, 0) (aMergeToolA ?LA, calls ?rA) =
      (0, ?n1, [AddNode_call (1, 0, 0) 0])"
    unfolding LA by (simp add: node_defs example_defs)
  have a2: "AddNode example_env (1, 0, 0) (?n1, [AddNode_call (1, 0, 0) 0]) =
      (0, ?n1, [AddNode_call (1, 0, 0) 0])"
    by (simp add: node_defs example_defs)
  have a3: "AddNode example_env (0, 1, 0) (?n1, [AddNode_call (1, 0, 0) 0]) =
      (1, ?n3, [AddNode_call (1, 0, 0) 0, AddNode_call (0, 1, 0) 1])"
    by (simp add: node_defs example_defs)
  note t = facet_emits_one_triangle_or_none [OF b1 b2 b3 v1 v2 v3 a1 a2 a3]
  have c: "count_AddTriangle [] = 0"
    by (simp add: count_AddTriangle_def)
  from t show ?thesis
    unfolding LA LB c by simp
qed

subsection \<open>The binary reader\<close>

lemma bit_31_iff: "bit (w :: 32 word) 31 \<longleftrightarrow> 2 ^ 31 \<le> unat w"
proof -
  have lt: "unat w < 2 ^ 32"
    using unsigned_less [of w, where ?'a = nat] by simp
  have "bit w 31 \<longleftrightarrow> bit (unat w) 31"
    by (simp add: bit_unsigned_iff)
  also have "\<dots> \<longleftrightarrow> odd (unat w div 2 ^ 31)"
    by (simp add: bit_iff_odd)
  also have "\<dots> \<longleftrightarrow> 2 ^ 31 \<le> unat w"
  proof
    assume "odd (unat w div 2 ^ 31)"
    then have "unat w div 2 ^ 31 \<noteq> 0" by (metis even_zero)
    then show "2 ^ 31 \<le> unat w" by (simp add: div_eq_0_iff)
  next
    assume "2 ^ 31 \<le> unat w"
    with lt have "unat w div 2 ^ 31 = 1"
      by (intro div_nat_eqI) simp_all
    then show "odd (unat w div 2 ^ 31)" by simp
  qed
  finally show ?thesis .
qed

lemma sint_neg_iff: "sint (w :: 32 word) < 0 \<longleftrightarrow> 2 ^ 31 \<le> unat w"
  using bit_last_iff [of w] bit_31_iff [of w] by simp

lemma istream_read_full:
  assumes "good s" and "n \<le> length (avail s)"
  shows "istream_read n s = (take n (avail s), s\<lparr>gpos := gpos s + n\<rparr>)"
  using assms by (simp add: istream_read_def avail_def Let_def)

lemma istream_read_len:
  assumes "istream_read n s = (got, s')"
  shows "length got = min n (length (avail s))"
  using assms by (auto simp: istream_read_def avail_def Let_def split: if_splits)

lemma ReadBinary_loop_stop:
  assumes "\<not> aNbFacetRead L < c"
  shows "ReadBinary_loop E c (L, r) = (\<not> UserBreak E (polls r), L, r\<lparr>polls := Suc (polls r)\<rparr>)"
  using assms by (subst ReadBinary_loop.simps) (simp add: More_def)

lemma ReadBinary_loop_step:
  assumes "\<not> UserBreak E (polls r)" and "aNbFacetRead L < c"
  shows "ReadBinary_loop E c (L, r) =
           (case ReadBinary_fill c (L, r\<lparr>polls := Suc (polls r)\<rparr>) of (ok, L1, r2) \<Rightarrow>
              if \<not> ok then (False, L1, r2)
              else ReadBinary_loop E c (ReadBinary_facet E (L1, r2)))"
  using assms by (subst ReadBinary_loop.simps) (simp add: More_def)

text \<open>
  C10. The count is the field at offset 80 read as a signed 32-bit integer. When its top
  bit is set (at least \<open>2 ^ 31\<close> as an unsigned number) the count is negative, the loop
  condition fails before the first iteration: the block reads the 84 bytes of the header
  and nothing else, sends no message, calls the sink for no node and no triangle, and
  returns what the only poll of the progress indicator says, true unless the user broke.
\<close>

theorem ReadBinary_count_with_top_bit:
  assumes g: "good (theStream r)"
    and a: "84 \<le> length (avail (theStream r))"
    and top: "2 ^ 31 \<le> unat (le32 (drop 80 (take 84 (avail (theStream r)))))"
  shows "header_aNbFacets (take 84 (avail (theStream r))) < 0
         \<and> ReadBinary E r =
             (\<not> UserBreak E (polls r),
              r\<lparr>theStream := (theStream r)\<lparr>gpos := gpos (theStream r) + 84\<rparr>,
                polls := Suc (polls r)\<rparr>)"
proof -
  have neg: "header_aNbFacets (take 84 (avail (theStream r))) < 0"
    using top by (simp add: header_aNbFacets_def sint_neg_iff)
  have rd: "istream_read 84 (theStream r) =
      (take 84 (avail (theStream r)), (theStream r)\<lparr>gpos := gpos (theStream r) + 84\<rparr>)"
    by (rule istream_read_full [OF g a])
  have "\<not> aNbFacetRead (ReadBinary_start (header_aNbFacets (take 84 (avail (theStream r)))))
      < header_aNbFacets (take 84 (avail (theStream r)))"
    using neg by (simp add: ReadBinary_start_def)
  note stop = ReadBinary_loop_stop [OF this]
  have "ReadBinary E r =
             (\<not> UserBreak E (polls r),
              r\<lparr>theStream := (theStream r)\<lparr>gpos := gpos (theStream r) + 84\<rparr>,
                polls := Suc (polls r)\<rparr>)"
    using a by (simp add: ReadBinary_def rd stop THE_STL_HEADER_SIZE_def Let_def)
  with neg show ?thesis by simp
qed


lemma le32_append: "4 \<le> length xs \<Longrightarrow> le32 (xs @ ys) = le32 xs"
  by (auto simp: numeral_eq_Suc Suc_le_length_iff)

lemma readStlFloatVec3_append:
  assumes "12 \<le> length xs"
  shows "readStlFloatVec3 E (xs @ ys) = readStlFloatVec3 E xs"
  using assms by (simp add: readStlFloatVec3_def readStlFloat_def le32_append)

lemma facet_points_append:
  assumes "48 \<le> length xs"
  shows "facet_points E (xs @ ys) = facet_points E xs"
  using assms by (simp add: facet_points_def aVec3Size_def readStlFloatVec3_append)

lemma ReadBinary_facet_eq:
  "ReadBinary_facet E (L, r) =
     (case add_triangle E (facet_points E (drop (aBufferPtr L) (aBuffer L)))
             (aMergeTool L, calls r) of
        (m, cs) \<Rightarrow>
          (L\<lparr>aMergeTool := m,
             aNbFacetRead := aNbFacetRead L + 1,
             aNbRead := aNbRead L + 1,
             aNbFacesInBuffer := aNbFacesInBuffer L - 1,
             aBufferPtr := aBufferPtr L + aFaceDataLen\<rparr>,
           r\<lparr>calls := cs\<rparr>))"
  by (simp add: ReadBinary_facet_def facet_points_def Let_def add.commute)


lemma ReadBinary_loop_run:
  assumes nb: "\<forall>n. \<not> UserBreak E n"
    and inv: "0 \<le> aNbFacesInBuffer L"
      "aNbFacetRead L + aNbFacesInBuffer L \<le> c"
      "aNbFacetRead L + aNbFacesInBuffer L = c
       \<or> (aNbFacetRead L + aNbFacesInBuffer L) mod 80 = 0"
      "length (drop (aBufferPtr L) (aBuffer L)) = 50 * nat (aNbFacesInBuffer L)"
    and X: "X = ReadBinary_loop E c (L, r)"
    and a: "a = int (length (avail (theStream r)))"
    and d: "data = drop (aBufferPtr L) (aBuffer L) @ avail (theStream r)"
    and N: "N = (if 50 * (c - (aNbFacetRead L + aNbFacesInBuffer L)) \<le> a
                 then c - aNbFacetRead L else aNbFacesInBuffer L + 80 * (a div 4000))"
  shows "fst X = (50 * (c - (aNbFacetRead L + aNbFacesInBuffer L)) \<le> a)
         \<and> aNbRead (fst (snd X)) = aNbRead L + N
         \<and> msgs (snd (snd X)) =
             (if 50 * (c - (aNbFacetRead L + aNbFacesInBuffer L)) \<le> a then msgs r
              else msgs r @ [Binary_read_failed])
         \<and> (aMergeTool (fst (snd X)), calls (snd (snd X))) =
             decode_binary E (nat N) data (aMergeTool L, calls r)"
  using inv X a d N
proof (induction "nat (c - aNbFacetRead L)" arbitrary: L r X a data N rule: less_induct)
  case less
  let ?k = "aNbFacetRead L" and ?b = "aNbFacesInBuffer L"
  note inv = less.prems(1-4)
  show ?case
  proof (cases "?k < c")
    case False
    with inv have kc: "?k = c" "?b = 0" by simp_all
    have "X = (True, L, r\<lparr>polls := Suc (polls r)\<rparr>)"
      using less.prems(5) ReadBinary_loop_stop [OF False, of E r] nb by simp
    with kc less.prems(6,8) show ?thesis by simp
  next
    case True
    let ?r1 = "r\<lparr>polls := Suc (polls r)\<rparr>"
    have step: "X = (case ReadBinary_fill c (L, ?r1) of (ok, L1, r2) \<Rightarrow>
              if \<not> ok then (False, L1, r2)
              else ReadBinary_loop E c (ReadBinary_facet E (L1, r2)))"
      using less.prems(5) ReadBinary_loop_step [OF _ True, of E r] nb by simp
    show ?thesis
    proof (cases "0 < ?b")
      case buffered: True
      then have fill: "ReadBinary_fill c (L, ?r1) = (True, L, ?r1)"
        by (simp add: ReadBinary_fill_def)
      obtain m cs where at: "add_triangle E (facet_points E (drop (aBufferPtr L) (aBuffer L)))
             (aMergeTool L, calls r) = (m, cs)"
        by (cases "add_triangle E (facet_points E (drop (aBufferPtr L) (aBuffer L)))
             (aMergeTool L, calls r)") auto
      let ?L2 = "L\<lparr>aMergeTool := m, aNbFacetRead := ?k + 1, aNbRead := aNbRead L + 1,
             aNbFacesInBuffer := ?b - 1, aBufferPtr := aBufferPtr L + aFaceDataLen\<rparr>"
      let ?r2 = "?r1\<lparr>calls := cs\<rparr>"
      have fc: "ReadBinary_facet E (L, ?r1) = (?L2, ?r2)"
        by (simp add: ReadBinary_facet_eq at)
      have X2: "X = ReadBinary_loop E c (?L2, ?r2)"
        using step by (simp add: fill fc)
      have len: "50 \<le> length (drop (aBufferPtr L) (aBuffer L))"
        using inv(4) buffered by simp
      have fp: "facet_points E data = facet_points E (drop (aBufferPtr L) (aBuffer L))"
        unfolding less.prems(7) using len by (intro facet_points_append) simp
      have d2: "drop (aBufferPtr ?L2) (aBuffer ?L2) @ avail (theStream ?r2) = drop aFaceDataLen data"
        unfolding less.prems(7) using len
        by (simp add: aFaceDataLen_def aVec3Size_def add.commute [of _ 50] flip: drop_drop)
      have inv2: "0 \<le> aNbFacesInBuffer ?L2"
        "aNbFacetRead ?L2 + aNbFacesInBuffer ?L2 \<le> c"
        "aNbFacetRead ?L2 + aNbFacesInBuffer ?L2 = c
         \<or> (aNbFacetRead ?L2 + aNbFacesInBuffer ?L2) mod 80 = 0"
        "length (drop (aBufferPtr ?L2) (aBuffer ?L2)) = 50 * nat (aNbFacesInBuffer ?L2)"
        using inv buffered by (simp_all add: aFaceDataLen_def aVec3Size_def nat_diff_distrib)
      have m: "nat (c - aNbFacetRead ?L2) < nat (c - ?k)"
        using True by simp
      let ?N2 = "(if 50 * (c - (aNbFacetRead ?L2 + aNbFacesInBuffer ?L2)) \<le> a
                 then c - aNbFacetRead ?L2 else aNbFacesInBuffer ?L2 + 80 * (a div 4000))"
      have a2: "a = int (length (avail (theStream ?r2)))"
        using less.prems(6) by simp
      note IH = less.hyps [OF m inv2 X2 a2 d2 [symmetric] refl]
      have NN: "N = ?N2 + 1" "0 \<le> ?N2"
        using less.prems(8) True buffered inv
        by (auto simp: less.prems(6) intro: pos_imp_zdiv_nonneg_iff [THEN iffD2])
      then have "nat N = Suc (nat ?N2)" by simp
      then have "decode_binary E (nat N) data (aMergeTool L, calls r) =
          decode_binary E (nat ?N2) (drop aFaceDataLen data) (m, cs)"
        by (simp add: fp at)
      with IH NN(1) show ?thesis by simp
    next
      case empty: False
      with inv have b0: "?b = 0" by simp
      with inv(4) have buf0: "drop (aBufferPtr L) (aBuffer L) = []" by simp
      from b0 inv(3) True have k80: "?k mod 80 = 0" by auto
      define n where "n = min THE_CHUNK_NBFACETS (c - ?k)"
      define want where "want = nat n * aFaceDataLen"
      have n1: "1 \<le> n" "n \<le> 80" "n \<le> c - ?k" "n = 80 \<or> n = c - ?k"
        unfolding n_def using True by (auto simp: THE_CHUNK_NBFACETS_def)
      have want: "int want = 50 * n"
        unfolding want_def using n1(1) by (simp add: aFaceDataLen_def aVec3Size_def)
      obtain got s where rd: "istream_read want (theStream r) = (got, s)"
        by (cases "istream_read want (theStream r)") auto
      note av = istream_read_avail [OF rd]
      note ln = istream_read_len [OF rd]
      have da: "data = avail (theStream r)"
        using less.prems(7) buf0 by simp
      have al: "a = int (length (avail (theStream r)))"
        by (rule less.prems(6))
      show ?thesis
      proof (cases "int want \<le> a")
        case short: False
        then have "length (avail (theStream r)) < want"
          unfolding al by simp
        then have "length got \<noteq> want"
          using ln by simp
        then have fill: "ReadBinary_fill c (L, ?r1) =
            (False, L\<lparr>aNbFacesInBuffer := n\<rparr>,
             SendFail Binary_read_failed (?r1\<lparr>theStream := s\<rparr>))"
          using b0 rd unfolding want_def n_def by (simp add: ReadBinary_fill_def Let_def)
        have Xf: "X = (False, L\<lparr>aNbFacesInBuffer := n\<rparr>,
             SendFail Binary_read_failed (?r1\<lparr>theStream := s\<rparr>))"
          using step by (simp add: fill)
        from short want have an: "a < 50 * n" by simp
        have "50 * n \<le> 50 * (c - ?k)" using n1(3) by simp
        with an b0 have c1: "\<not> 50 * (c - (?k + ?b)) \<le> a" by simp
        have "50 * n \<le> 4000" using n1(2) by simp
        with an have "a < 4000" by simp
        moreover have "0 \<le> a" unfolding al by simp
        ultimately have "a div 4000 = 0" by simp
        with c1 b0 less.prems(8) have "N = 0" by simp
        with Xf c1 show ?thesis
          by (simp add: SendFail_def)
      next
        case full: True
        then have "want \<le> length (avail (theStream r))"
          unfolding al by simp
        then have lg: "length got = want"
          using ln by simp
        let ?L1 = "L\<lparr>aNbFacesInBuffer := n, aBuffer := got, aBufferPtr := 0\<rparr>"
        let ?r2 = "?r1\<lparr>theStream := s\<rparr>"
        have fill: "ReadBinary_fill c (L, ?r1) = (True, ?L1, ?r2)"
          using b0 rd lg unfolding want_def n_def by (simp add: ReadBinary_fill_def Let_def)
        have ilg: "int (length got) = 50 * n"
          using lg want by simp
        with n1(1) have "50 \<le> int (length got)" by simp
        then have g50: "50 \<le> length got" by simp
        have fpd: "facet_points E data = facet_points E got"
          unfolding da av using g50 by (intro facet_points_append) simp
        obtain m cs where at: "add_triangle E (facet_points E got) (aMergeTool L, calls r) = (m, cs)"
          by (cases "add_triangle E (facet_points E got) (aMergeTool L, calls r)") auto
        let ?L2 = "?L1\<lparr>aMergeTool := m, aNbFacetRead := ?k + 1, aNbRead := aNbRead L + 1,
             aNbFacesInBuffer := n - 1, aBufferPtr := 0 + aFaceDataLen\<rparr>"
        let ?r3 = "?r2\<lparr>calls := cs\<rparr>"
        have fc: "ReadBinary_facet E (?L1, ?r2) = (?L2, ?r3)"
          by (simp add: ReadBinary_facet_eq at)
        have X2: "X = ReadBinary_loop E c (?L2, ?r3)"
          using step by (simp add: fill fc)
        have d2: "drop (aBufferPtr ?L2) (aBuffer ?L2) @ avail (theStream ?r3) = drop aFaceDataLen data"
          unfolding da av using g50 by (simp add: aFaceDataLen_def aVec3Size_def)
        have i1: "0 \<le> aNbFacesInBuffer ?L2" using n1(1) by simp
        have i2: "aNbFacetRead ?L2 + aNbFacesInBuffer ?L2 \<le> c" using n1(3) by simp
        have i3: "aNbFacetRead ?L2 + aNbFacesInBuffer ?L2 = c
           \<or> (aNbFacetRead ?L2 + aNbFacesInBuffer ?L2) mod 80 = 0"
          using n1(4) k80 by auto
        have "int (length (drop aFaceDataLen got)) = 50 * (n - 1)"
          using ilg g50 by (simp add: aFaceDataLen_def aVec3Size_def)
        also have "\<dots> = int (50 * nat (n - 1))"
          using n1(1) by simp
        finally have "length (drop aFaceDataLen got) = 50 * nat (n - 1)"
          by (simp only: of_nat_eq_iff)
        then have i4: "length (drop (aBufferPtr ?L2) (aBuffer ?L2)) = 50 * nat (aNbFacesInBuffer ?L2)"
          by simp
        have m: "nat (c - aNbFacetRead ?L2) < nat (c - ?k)"
          using True by simp
        let ?a2 = "a - 50 * n"
        have "int (length (avail (theStream r))) = int (length got) + int (length (avail s))"
          unfolding av by simp
        then have a2: "?a2 = int (length (avail (theStream ?r3)))"
          using ilg al by simp
        let ?N2 = "(if 50 * (c - (aNbFacetRead ?L2 + aNbFacesInBuffer ?L2)) \<le> ?a2
                 then c - aNbFacetRead ?L2 else aNbFacesInBuffer ?L2 + 80 * (?a2 div 4000))"
        note IH = less.hyps [OF m i1 i2 i3 i4 X2 a2 d2 [symmetric] refl]
        have ce: "(50 * (c - (aNbFacetRead ?L2 + aNbFacesInBuffer ?L2)) \<le> ?a2)
            = (50 * (c - (?k + ?b)) \<le> a)"
          using b0 by auto
        have NN: "N = ?N2 + 1 \<and> 0 \<le> ?N2"
        proof (cases "50 * (c - (?k + ?b)) \<le> a")
          case True
          with ce less.prems(8) \<open>?k < c\<close> show ?thesis by simp
        next
          case False
          with full want b0 have "n \<noteq> c - ?k" by auto
          with n1(4) have n80: "n = 80" by simp
          with full want have "4000 \<le> a" by simp
          then have "(a - 4000) div 4000 = a div 4000 - 1" "1 \<le> a div 4000"
            by simp_all
          with False ce less.prems(8) b0 n80 show ?thesis by simp
        qed
        have gen: "nat x = Suc (nat y)" if "x = y + 1 \<and> 0 \<le> y" for x y :: int
          using that by (auto simp: nat_add_distrib)
        have "decode_binary E (nat N) data (aMergeTool L, calls r) =
            decode_binary E (nat ?N2) (drop aFaceDataLen data) (m, cs)"
          unfolding gen [OF NN] by (simp add: fpd at)
        with IH NN ce show ?thesis by simp
      qed
    qed
  qed
qed


lemma ReadBinary_run:
  assumes nb: "\<forall>n. \<not> UserBreak E n"
    and g: "good (theStream r)"
    and h: "84 \<le> length (avail (theStream r))"
    and c: "c = header_aNbFacets (take 84 (avail (theStream r)))"
    and a: "a = int (length (avail (theStream r))) - 84"
    and X: "X = ReadBinary_loop E c
                  (ReadBinary_start c,
                   r\<lparr>theStream := (theStream r)\<lparr>gpos := gpos (theStream r) + 84\<rparr>\<rparr>)"
    and N: "N = (if 50 * max 0 c \<le> a then max 0 c else 80 * (a div 4000))"
  shows "ReadBinary E r = (fst X, snd (snd X))
         \<and> fst X = (50 * max 0 c \<le> a)
         \<and> aNbRead (fst (snd X)) = N
         \<and> msgs (snd (snd X)) =
             (if 50 * max 0 c \<le> a then msgs r else msgs r @ [Binary_read_failed])
         \<and> calls (snd (snd X)) =
             snd (decode_binary E (nat N) (drop 84 (avail (theStream r))) (MergeNodeTool, calls r))"
proof -
  let ?s = "(theStream r)\<lparr>gpos := gpos (theStream r) + 84\<rparr>"
  let ?r1 = "r\<lparr>theStream := ?s\<rparr>"
  have rd: "istream_read 84 (theStream r) = (take 84 (avail (theStream r)), ?s)"
    by (rule istream_read_full [OF g h])
  have RB: "ReadBinary E r = (fst X, snd (snd X))"
    using h by (simp add: ReadBinary_def rd THE_STL_HEADER_SIZE_def Let_def c X split: prod.splits)
  have av: "avail ?s = drop 84 (avail (theStream r))"
    using g by (simp add: avail_def good_def add.commute)
  have a0: "0 \<le> a" using a h by simp
  show ?thesis
  proof (cases "c < 0")
    case True
    then have "\<not> aNbFacetRead (ReadBinary_start c) < c"
      by (simp add: ReadBinary_start_def)
    from ReadBinary_loop_stop [OF this, of E ?r1] nb
    have "X = (True, ReadBinary_start c, ?r1\<lparr>polls := Suc (polls ?r1)\<rparr>)"
      unfolding X by simp
    with True a0 RB N show ?thesis
      by (simp add: ReadBinary_start_def max_def)
  next
    case False
    then have c0: "max 0 c = c" by simp
    let ?L = "ReadBinary_start c"
    have i: "0 \<le> aNbFacesInBuffer ?L" "aNbFacetRead ?L + aNbFacesInBuffer ?L \<le> c"
      "aNbFacetRead ?L + aNbFacesInBuffer ?L = c
       \<or> (aNbFacetRead ?L + aNbFacesInBuffer ?L) mod 80 = 0"
      "length (drop (aBufferPtr ?L) (aBuffer ?L)) = 50 * nat (aNbFacesInBuffer ?L)"
      using False by (simp_all add: ReadBinary_start_def)
    have a1: "a = int (length (avail (theStream ?r1)))"
      using a h by (simp add: av)
    have d1: "drop 84 (avail (theStream r)) = drop (aBufferPtr ?L) (aBuffer ?L) @ avail (theStream ?r1)"
      by (simp add: av ReadBinary_start_def)
    have N1: "N = (if 50 * (c - (aNbFacetRead ?L + aNbFacesInBuffer ?L)) \<le> a
                 then c - aNbFacetRead ?L else aNbFacesInBuffer ?L + 80 * (a div 4000))"
      using N c0 by (simp add: ReadBinary_start_def)
    have ce: "(50 * (c - (aNbFacetRead ?L + aNbFacesInBuffer ?L)) \<le> a) = (50 * max 0 c \<le> a)"
      using c0 by (simp add: ReadBinary_start_def)
    note run = ReadBinary_loop_run [OF nb i X a1 d1 N1, unfolded ce]
    have "calls (snd (snd X)) =
        snd (decode_binary E (nat N) (drop 84 (avail (theStream r))) (aMergeTool ?L, calls ?r1))"
      using run by (metis snd_conv)
    with run RB show ?thesis
      by (simp add: ReadBinary_start_def)
  qed
qed


lemma avail_reader_on: "avail (theStream (reader_on n bytes)) = bytes"
  by (simp add: reader_on_def avail_def good_def open_stream_def)

lemma good_reader_on: "good (theStream (reader_on n bytes))"
  by (simp add: reader_on_def good_def open_stream_def)

lemma le32_replicate: "4 \<le> n \<Longrightarrow> le32 (replicate n c) = le32 [c, c, c, c]"
  by (auto simp: numeral_eq_Suc Suc_le_eq dest!: less_imp_Suc_add)

lemma facet_points_zero:
  "facet_points example_env (replicate 50 (CHR 0x00)) = ((0, 0, 0), (0, 0, 0), (0, 0, 0))"
  by (simp add: facet_points_def aVec3Size_def readStlFloatVec3_def readStlFloat_def
      le32_replicate example_env_def ieee_single_def)

lemma add_triangle_zero:
  "add_triangle example_env ((0, 0, 0), (0, 0, 0), (0, 0, 0)) (MergeNodeTool, []) =
     (\<lparr>NbBuckets = 1024, myData = [((0, 0, 0), 0)]\<rparr>, [AddNode_call (0, 0, 0) 0])"
  by (simp add: node_defs example_defs)

text \<open>
  C7 (amended). The count of the header is not compared with the length of the stream
  before decoding. The loop asks for chunks of at most 80 facets up to the count: when
  all of them are there, the count is reached and the block returns true (no user
  break); when a chunk comes up short, the block sends "binary STL read failed" and
  returns false, and the facets decoded are those of the chunks read in full before,
  80 for every 4000 bytes that follow the header.
\<close>

theorem ReadBinary_count_and_short_chunk:
  assumes "\<forall>n. \<not> UserBreak E n"
    and "good (theStream r)"
    and "84 \<le> length (avail (theStream r))"
    and "c = header_aNbFacets (take 84 (avail (theStream r)))"
    and "a = int (length (avail (theStream r))) - 84"
    and "X = ReadBinary_loop E c
                  (ReadBinary_start c,
                   r\<lparr>theStream := (theStream r)\<lparr>gpos := gpos (theStream r) + 84\<rparr>\<rparr>)"
    and "N = (if 50 * max 0 c \<le> a then max 0 c else 80 * (a div 4000))"
  shows "ReadBinary E r = (fst X, snd (snd X))
         \<and> fst X = (50 * max 0 c \<le> a)
         \<and> aNbRead (fst (snd X)) = N
         \<and> msgs (snd (snd X)) =
             (if 50 * max 0 c \<le> a then msgs r else msgs r @ [Binary_read_failed])
         \<and> calls (snd (snd X)) =
             snd (decode_binary E (nat N) (drop 84 (avail (theStream r))) (MergeNodeTool, calls r))"
  using assms by (rule ReadBinary_run)

theorem ReadBinary_count_and_short_chunk_witness:
  "fst (ReadBinary example_env
     (reader_on 1024
        (replicate 80 (CHR 0x00) @ [CHR 0x01, CHR 0x00, CHR 0x00, CHR 0x00]
         @ replicate 50 (CHR 0x00))))
   \<and> msgs (snd (ReadBinary example_env
     (reader_on 1024
        (replicate 80 (CHR 0x00) @ [CHR 0x01, CHR 0x00, CHR 0x00, CHR 0x00]
         @ replicate 50 (CHR 0x00))))) = []
   \<and> calls (snd (ReadBinary example_env
     (reader_on 1024
        (replicate 80 (CHR 0x00) @ [CHR 0x01, CHR 0x00, CHR 0x00, CHR 0x00]
         @ replicate 50 (CHR 0x00))))) = [AddNode_call (0, 0, 0) 0]"
proof -
  let ?bytes = "replicate 80 (CHR 0x00) @ [CHR 0x01, CHR 0x00, CHR 0x00, CHR 0x00]
         @ replicate 50 (CHR 0x00)"
  let ?r = "reader_on 1024 ?bytes"
  have h: "84 \<le> length (avail (theStream ?r))"
    by (simp add: avail_reader_on)
  have c: "1 = header_aNbFacets (take 84 (avail (theStream ?r)))"
    by (simp add: avail_reader_on header_aNbFacets_def)
  have a: "50 = int (length (avail (theStream ?r))) - 84"
    by (simp add: avail_reader_on)
  have N: "1 = (if 50 * max 0 1 \<le> (50::int) then max 0 (1::int) else 80 * (50 div 4000))"
    by (simp add: max_def)
  have d: "decode_binary example_env (nat 1) (drop 84 (avail (theStream ?r)))
      (MergeNodeTool, calls ?r) =
      (\<lparr>NbBuckets = 1024, myData = [((0, 0, 0), 0)]\<rparr>, [AddNode_call (0, 0, 0) 0])"
  proof -
    have "calls ?r = []"
      by (simp add: reader_on_def)
    moreover have "drop 84 (avail (theStream ?r)) = replicate 50 (CHR 0x00)"
      by (simp add: avail_reader_on)
    ultimately show ?thesis
      by (simp add: facet_points_zero add_triangle_zero)
  qed
  note t = ReadBinary_count_and_short_chunk [OF example_no_break good_reader_on h c a refl N,
      unfolded d]
  from t show ?thesis
    by (simp add: reader_on_def max_def)
qed

theorem ReadBinary_count_and_short_chunk_counterexample:
  "\<not> fst (ReadBinary example_env
     (reader_on 1024
        (replicate 80 (CHR 0x00) @ [CHR 0x02, CHR 0x00, CHR 0x00, CHR 0x00]
         @ replicate 50 (CHR 0x00))))
   \<and> msgs (snd (ReadBinary example_env
     (reader_on 1024
        (replicate 80 (CHR 0x00) @ [CHR 0x02, CHR 0x00, CHR 0x00, CHR 0x00]
         @ replicate 50 (CHR 0x00))))) = [Binary_read_failed]
   \<and> calls (snd (ReadBinary example_env
     (reader_on 1024
        (replicate 80 (CHR 0x00) @ [CHR 0x02, CHR 0x00, CHR 0x00, CHR 0x00]
         @ replicate 50 (CHR 0x00))))) = []"
proof -
  let ?bytes = "replicate 80 (CHR 0x00) @ [CHR 0x02, CHR 0x00, CHR 0x00, CHR 0x00]
         @ replicate 50 (CHR 0x00)"
  let ?r = "reader_on 1024 ?bytes"
  have h: "84 \<le> length (avail (theStream ?r))"
    by (simp add: avail_reader_on)
  have c: "2 = header_aNbFacets (take 84 (avail (theStream ?r)))"
    by (simp add: avail_reader_on header_aNbFacets_def)
  have a: "50 = int (length (avail (theStream ?r))) - 84"
    by (simp add: avail_reader_on)
  have N: "0 = (if 50 * max 0 2 \<le> (50::int) then max 0 (2::int) else 80 * (50 div 4000))"
    by (simp add: max_def)
  note t = ReadBinary_run [OF example_no_break good_reader_on h c a refl N]
  from t show ?thesis
    by (simp add: reader_on_def max_def)
qed

theorem ReadBinary_count_with_top_bit_witness:
  "header_aNbFacets (take 84
      (replicate 80 (CHR 0x00) @ [CHR 0xFF, CHR 0xFF, CHR 0xFF, CHR 0xFF]
       @ replicate 100 (CHR 0x00))) < 0
   \<and> ReadBinary example_env
     (reader_on 1024
        (replicate 80 (CHR 0x00) @ [CHR 0xFF, CHR 0xFF, CHR 0xFF, CHR 0xFF]
         @ replicate 100 (CHR 0x00))) =
     (True,
      (reader_on 1024
        (replicate 80 (CHR 0x00) @ [CHR 0xFF, CHR 0xFF, CHR 0xFF, CHR 0xFF]
         @ replicate 100 (CHR 0x00)))
      \<lparr>theStream := (open_stream
          (replicate 80 (CHR 0x00) @ [CHR 0xFF, CHR 0xFF, CHR 0xFF, CHR 0xFF]
           @ replicate 100 (CHR 0x00)))\<lparr>gpos := 84\<rparr>,
        polls := 1\<rparr>)"
proof -
  let ?bytes = "replicate 80 (CHR 0x00) @ [CHR 0xFF, CHR 0xFF, CHR 0xFF, CHR 0xFF]
         @ replicate 100 (CHR 0x00)"
  let ?r = "reader_on 1024 ?bytes"
  have h: "84 \<le> length (avail (theStream ?r))"
    by (simp add: avail_reader_on)
  have top: "2 ^ 31 \<le> unat (le32 (drop 80 (take 84 (avail (theStream ?r)))))"
    by (simp add: avail_reader_on)
  from ReadBinary_count_with_top_bit [OF good_reader_on h top, of example_env]
  show ?thesis
    by (simp add: avail_reader_on) (simp add: reader_on_def example_env_def open_stream_def)
qed

subsection \<open>The indices of the triangles\<close>

lemma node_indices_append: "node_indices (cs @ ds) = node_indices cs @ node_indices ds"
  by (induction cs rule: node_indices.induct) simp_all

lemma triangles_known_append:
  "triangles_known K (cs @ ds) \<longleftrightarrow> triangles_known K cs \<and> triangles_known (K \<union> set (node_indices cs)) ds"
  by (induction K cs rule: triangles_known.induct) simp_all

lemma Find_Some: "Find E m p = Some v \<Longrightarrow> v \<in> snd ` set (myData m)"
proof -
  assume "Find E m p = Some v"
  then obtain kv where f: "find (\<lambda>(k, v). HashCode E k (NbBuckets m) = HashCode E p (NbBuckets m)
                         \<and> IsEqual k p) (myData m) = Some kv" and v: "v = snd kv"
    by (auto simp: Find_def)
  from f have "kv \<in> set (myData m)"
    by (auto simp: find_Some_iff in_set_conv_nth)
  with v show ?thesis by simp
qed

lemma AddNode_inv:
  assumes "block_inv cs0 ns (m, cs)" and "AddNode E p (m, cs) = (n, m', cs')"
  shows "block_inv cs0 (insert n ns) (m', cs')"
proof -
  from assms(1) obtain new where new: "cs = cs0 @ new"
    "snd ` set (myData m) \<union> ns \<subseteq> set (node_indices new)" "triangles_known {} new"
    by (auto simp: block_inv_def)
  show ?thesis
  proof (cases "Find E m p")
    case (Some v)
    with assms(2) have "n = v" "m' = m" "cs' = cs"
      by (simp_all add: AddNode_def)
    with Find_Some [OF Some] new show ?thesis
      by (auto simp: block_inv_def)
  next
    case None
    with assms(2) have "m' = Bind m p n" "cs' = cs0 @ (new @ [AddNode_call p n])"
      by (auto simp: AddNode_def Let_def new(1))
    with new show ?thesis
      unfolding block_inv_def
      by (auto simp: Bind_def node_indices_append triangles_known_append intro!: exI [of _ "new @ [AddNode_call p n]"])
  qed
qed

lemma block_inv_weaken: "block_inv cs0 ns st \<Longrightarrow> block_inv cs0 {} st"
  by (auto simp: block_inv_def)

lemma add_triangle_inv:
  assumes "block_inv cs0 {} st"
  shows "block_inv cs0 {} (add_triangle E v st)"
proof -
  obtain aP1 aP2 aP3 where v: "v = (aP1, aP2, aP3)"
    by (cases v) auto
  obtain m cs where st: "st = (m, cs)"
    by (cases st) auto
  obtain n1 m1 cs1 where a: "AddNode E aP1 (m, cs) = (n1, m1, cs1)"
    by (cases "AddNode E aP1 (m, cs)") auto
  obtain n2 m2 cs2 where b: "AddNode E aP2 (m1, cs1) = (n2, m2, cs2)"
    by (cases "AddNode E aP2 (m1, cs1)") auto
  obtain n3 m3 cs3 where c: "AddNode E aP3 (m2, cs2) = (n3, m3, cs3)"
    by (cases "AddNode E aP3 (m2, cs2)") auto
  from assms st have "block_inv cs0 {} (m, cs)"
    by simp
  from AddNode_inv [OF AddNode_inv [OF AddNode_inv [OF this a] b] c]
  have i3: "block_inv cs0 {n3, n2, n1} (m3, cs3)" .
  then obtain new where new: "cs3 = cs0 @ new"
    "snd ` set (myData m3) \<union> {n3, n2, n1} \<subseteq> set (node_indices new)" "triangles_known {} new"
    by (auto simp: block_inv_def)
  have "block_inv cs0 {} (m3, cs3 @ [AddTriangle_call n1 n2 n3])"
    unfolding block_inv_def using new
    by (auto simp: node_indices_append triangles_known_append
        intro!: exI [of _ "new @ [AddTriangle_call n1 n2 n3]"])
  with block_inv_weaken [OF i3] show ?thesis
    by (simp add: add_triangle_def v st a b c)
qed

lemma ReadBinary_fill_calls:
  "ReadBinary_fill n (L, r) = (ok, L', r') \<Longrightarrow> aMergeTool L' = aMergeTool L \<and> calls r' = calls r"
  by (auto simp: ReadBinary_fill_def Let_def SendFail_def split: if_splits prod.splits)

lemma ReadBinary_facet_inv:
  assumes "block_inv cs0 {} (aMergeTool L, calls r)" and "ReadBinary_facet E (L, r) = (L', r')"
  shows "block_inv cs0 {} (aMergeTool L', calls r')"
proof -
  let ?v = "(readStlFloatVec3 E (drop (aBufferPtr L + aVec3Size) (aBuffer L)),
           readStlFloatVec3 E (drop (aBufferPtr L + aVec3Size * 2) (aBuffer L)),
           readStlFloatVec3 E (drop (aBufferPtr L + aVec3Size * 3) (aBuffer L)))"
  obtain m cs where a: "add_triangle E ?v (aMergeTool L, calls r) = (m, cs)"
    by (cases "add_triangle E ?v (aMergeTool L, calls r)") auto
  from add_triangle_inv [OF assms(1), of E ?v] a have "block_inv cs0 {} (m, cs)"
    by simp
  with assms(2) a show ?thesis
    by (auto simp: ReadBinary_facet_def Let_def)
qed

lemma ReadBinary_loop_inv:
  "ReadBinary_loop E n (L, r) = (res, L', r') \<Longrightarrow> block_inv cs0 {} (aMergeTool L, calls r)
   \<Longrightarrow> block_inv cs0 {} (aMergeTool L', calls r')"
proof (induction E n "(L, r)" arbitrary: L r rule: ReadBinary_loop.induct)
  case (1 E n L r)
  show ?case
  proof (cases "aNbFacetRead L < n \<and> \<not> UserBreak E (polls r)")
    case False
    with "1.prems" show ?thesis
      by (subst (asm) ReadBinary_loop.simps) (auto simp: More_def split: if_splits)
  next
    case True
    let ?r1 = "r\<lparr>polls := Suc (polls r)\<rparr>"
    obtain ok L1 r2 where f: "ReadBinary_fill n (L, ?r1) = (ok, L1, r2)"
      by (cases "ReadBinary_fill n (L, ?r1)") auto
    from ReadBinary_fill_calls [OF f] "1.prems"(2)
    have i1: "block_inv cs0 {} (aMergeTool L1, calls r2)"
      by simp
    show ?thesis
    proof (cases ok)
      case False
      with True f "1.prems"(1) have "L' = L1" "r' = r2"
        by (subst (asm) ReadBinary_loop.simps, simp add: More_def)+
      with i1 show ?thesis by simp
    next
      case ok: True
      obtain L2 r3 where g: "ReadBinary_facet E (L1, r2) = (L2, r3)"
        by (cases "ReadBinary_facet E (L1, r2)") auto
      from True f ok g "1.prems"(1) have l: "ReadBinary_loop E n (L2, r3) = (res, L', r')"
        by (subst (asm) ReadBinary_loop.simps) (simp add: More_def)
      have m: "More E r = (True, ?r1)"
        using True by (simp add: More_def)
      from "1.hyps" [OF _ m [symmetric] _ f [symmetric] refl _ g l
          ReadBinary_facet_inv [OF i1 g]] True ok
      show ?thesis by simp
    qed
  qed
qed


lemma ReadAscii_vertex_calls:
  "ReadAscii_vertex E r = (v, r') \<Longrightarrow> calls r' = calls r"
  by (auto simp: ReadAscii_vertex_def split: prod.splits option.splits if_splits
      dest: ReadLine_others)

lemma calls_SendFail [simp]: "calls (SendFail m r) = calls r"
  by (simp add: SendFail_def)

lemma ReadAscii_triangle_inv:
  assumes i: "block_inv cs0 {} (aMergeToolA L, calls r)"
    and t: "ReadAscii_triangle E (L, r) = (out, L', r')"
  shows "block_inv cs0 {} (aMergeToolA L', calls r')"
proof -
  obtain v0 r1 where a: "ReadAscii_vertex E r = (v0, r1)"
    by (cases "ReadAscii_vertex E r") auto
  obtain v1 r2 where b: "ReadAscii_vertex E r1 = (v1, r2)"
    by (cases "ReadAscii_vertex E r1") auto
  obtain v2 r3 where c: "ReadAscii_vertex E r2 = (v2, r3)"
    by (cases "ReadAscii_vertex E r2") auto
  note cs = ReadAscii_vertex_calls [OF a] ReadAscii_vertex_calls [OF b]
    ReadAscii_vertex_calls [OF c]
  show ?thesis
  proof (cases "\<exists>p0 p1 p2. v0 = Vertex p0 \<and> v1 = Vertex p1 \<and> v2 = Vertex p2")
    case False
    with t a b c have "aMergeToolA L' = aMergeToolA L \<and> calls r' = calls r"
      using cs by (auto simp: ReadAscii_triangle_def split: vertex_line.splits)
    with i show ?thesis by simp
  next
    case True
    then obtain p0 p1 p2 where v: "v0 = Vertex p0" "v1 = Vertex p1" "v2 = Vertex p2"
      by blast
    obtain m ds where at: "add_triangle E (p0, p1, p2) (aMergeToolA L, calls r3) = (m, ds)"
      by (cases "add_triangle E (p0, p1, p2) (aMergeToolA L, calls r3)") auto
    have i3: "block_inv cs0 {} (m, ds)"
      using add_triangle_inv [of cs0 "(aMergeToolA L, calls r3)" E "(p0, p1, p2)"] i cs at
      by simp
    obtain l4 r4 where e1: "ReadLine (r3\<lparr>calls := ds\<rparr>) = (l4, r4)"
      by (cases "ReadLine (r3\<lparr>calls := ds\<rparr>)") auto
    obtain l5 r5 where e2: "ReadLine r4 = (l5, r5)"
      by (cases "ReadLine r4") auto
    from ReadLine_others [OF e1] ReadLine_others [OF e2] have "calls r5 = ds"
      by simp
    moreover from t a b c v at e1 e2 have "aMergeToolA L' = m" "r' = r5"
      by (auto simp: ReadAscii_triangle_def)
    ultimately show ?thesis
      using i3 by simp
  qed
qed

lemma ReadAscii_progress_calls:
  "ReadAscii_progress (L, r) = (L', r') \<Longrightarrow> aMergeToolA L' = aMergeToolA L \<and> calls r' = calls r"
  by (auto simp: ReadAscii_progress_def split: prod.splits if_splits)

lemma ReadAscii_keywords_inv:
  assumes i: "block_inv cs0 {} (aMergeToolA L, calls r)"
    and k: "ReadAscii_keywords E (L, r) = (out, L', r')"
  shows "block_inv cs0 {} (aMergeToolA L', calls r')"
proof -
  obtain l1 r1 where a: "ReadLine r = (l1, r1)"
    by (cases "ReadLine r") auto
  obtain l2 r2 where b: "ReadLine r1 = (l2, r2)"
    by (cases "ReadLine r1") auto
  note cs = ReadLine_others [OF a] ReadLine_others [OF b]
  show ?thesis
  proof (cases "\<exists>aLine aLine2. l1 = Some aLine \<and> \<not> str_starts_with aLine ''endsolid'' 8
      \<and> str_starts_with aLine ''facet'' 5 \<and> l2 = Some aLine2
      \<and> str_starts_with aLine2 ''outer'' 5")
    case True
    with k a b have "ReadAscii_triangle E (L, r2) = (out, L', r')"
      by (auto simp: ReadAscii_keywords_def)
    moreover have "block_inv cs0 {} (aMergeToolA L, calls r2)"
      using i cs by simp
    ultimately show ?thesis
      by (rule ReadAscii_triangle_inv [rotated])
  next
    case False
    with k a b have "aMergeToolA L' = aMergeToolA L \<and> calls r' = calls r"
      using cs by (auto simp: ReadAscii_keywords_def split: option.splits if_splits)
    with i show ?thesis by simp
  qed
qed

lemma ReadAscii_facet_inv:
  assumes i: "block_inv cs0 {} (aMergeToolA L, calls r)"
    and f: "ReadAscii_facet E (L, r) = (out, L', r')"
  shows "block_inv cs0 {} (aMergeToolA L', calls r')"
proof -
  obtain L0 r0 where p: "ReadAscii_progress (L, r) = (L0, r0)"
    by (cases "ReadAscii_progress (L, r)") auto
  from ReadAscii_progress_calls [OF p] i have "block_inv cs0 {} (aMergeToolA L0, calls r0)"
    by simp
  moreover from f p have "ReadAscii_keywords E (L0, r0) = (out, L', r')"
    by (simp add: ReadAscii_facet_def)
  ultimately show ?thesis
    by (rule ReadAscii_keywords_inv)
qed

lemma ReadAscii_loop_inv:
  "ReadAscii_loop E (L, r) = (res, L', r') \<Longrightarrow> block_inv cs0 {} (aMergeToolA L, calls r)
   \<Longrightarrow> block_inv cs0 {} (aMergeToolA L', calls r')"
proof (induction E "(L, r)" arbitrary: L r rule: ReadAscii_loop.induct)
  case (1 E L r)
  let ?r1 = "r\<lparr>polls := Suc (polls r)\<rparr>"
  obtain out L1 r2 where f: "ReadAscii_facet E (L, ?r1) = (out, L1, r2)"
    by (cases "ReadAscii_facet E (L, ?r1)") auto
  have i1: "block_inv cs0 {} (aMergeToolA L1, calls r2)"
    by (rule ReadAscii_facet_inv [OF _ f]) (use "1.prems"(2) in simp)
  show ?case
  proof (cases "\<not> UserBreak E (polls r) \<and> out = Continue")
    case True
    with f "1.prems"(1) have l: "ReadAscii_loop E (L1, r2) = (res, L', r')"
      by (subst (asm) ReadAscii_loop.simps) (simp add: More_def)
    from "1.hyps" [OF _ _ _ _ _ l i1] True f show ?thesis
      by (simp add: More_def)
  next
    case False
    show ?thesis
    proof (cases "UserBreak E (polls r)")
      case True
      with "1.prems" show ?thesis
        by (subst (asm) ReadAscii_loop.simps) (auto simp: More_def)
    next
      case nb: False
      with False f "1.prems"(1) have "L' = L1 \<and> calls r' = calls r2"
        by (subst (asm) ReadAscii_loop.simps)
          (auto simp: More_def split: outcome.splits)
      with i1 show ?thesis by simp
    qed
  qed
qed

lemma block_inv_start: "block_inv cs {} (MergeNodeTool, cs)"
  by (simp add: block_inv_def MergeNodeTool_def)

lemma block_inv_calls:
  assumes "block_inv cs0 {} (m, cs)"
  shows "take (length cs0) cs = cs0 \<and> triangles_known {} (drop (length cs0) cs)"
  using assms by (auto simp: block_inv_def)

lemma ReadBinary_calls:
  "take (length (calls r)) (calls (snd (ReadBinary E r))) = calls r
   \<and> triangles_known {} (drop (length (calls r)) (calls (snd (ReadBinary E r))))"
proof -
  obtain aHeader s where rd: "istream_read THE_STL_HEADER_SIZE (theStream r) = (aHeader, s)"
    by (cases "istream_read THE_STL_HEADER_SIZE (theStream r)") auto
  show ?thesis
  proof (cases "length aHeader \<noteq> THE_STL_HEADER_SIZE")
    case True
    with rd show ?thesis
      by (simp add: ReadBinary_def)
  next
    case False
    let ?c = "header_aNbFacets aHeader"
    obtain res L' r' where l:
      "ReadBinary_loop E ?c (ReadBinary_start ?c, r\<lparr>theStream := s\<rparr>) = (res, L', r')"
      by (cases "ReadBinary_loop E ?c (ReadBinary_start ?c, r\<lparr>theStream := s\<rparr>)") auto
    have "block_inv (calls r) {} (aMergeTool (ReadBinary_start ?c), calls (r\<lparr>theStream := s\<rparr>))"
      by (simp add: ReadBinary_start_def block_inv_start)
    from block_inv_calls [OF ReadBinary_loop_inv [OF l this]] False rd l show ?thesis
      by (simp add: ReadBinary_def Let_def)
  qed
qed

lemma ReadAscii_calls:
  "take (length (calls r)) (calls (snd (ReadAscii E r))) = calls r
   \<and> triangles_known {} (drop (length (calls r)) (calls (snd (ReadAscii E r))))"
proof -
  obtain aStartPos s where t: "tellg (theStream r) = (aStartPos, s)"
    by (cases "tellg (theStream r)") auto
  obtain l1 r1 where a: "ReadLine (r\<lparr>theStream := s\<rparr>) = (l1, r1)"
    by (cases "ReadLine (r\<lparr>theStream := s\<rparr>)") auto
  from ReadLine_others [OF a] have c1: "calls r1 = calls r"
    by simp
  show ?thesis
  proof (cases l1)
    case None
    with t a c1 show ?thesis
      by (simp add: ReadAscii_def)
  next
    case (Some aLine)
    let ?L = "\<lparr>aMergeToolA = MergeNodeTool, aNbLine = 1, aProgressPos = aStartPos + aStepB\<rparr>"
    obtain res L' r' where l: "ReadAscii_loop E (?L, r1) = (res, L', r')"
      by (cases "ReadAscii_loop E (?L, r1)") auto
    have "block_inv (calls r) {} (aMergeToolA ?L, calls r1)"
      by (simp add: c1 block_inv_start)
    from block_inv_calls [OF ReadAscii_loop_inv [OF l this]] Some t a l show ?thesis
      by (simp add: ReadAscii_def)
  qed
qed

text \<open>
  C9. In the calls that a block adds to the history, binary or text, every index of an
  \<^verbatim>\<open>AddTriangle\<close> call is the index recorded by an \<^verbatim>\<open>AddNode\<close> call of the sink made
  earlier in the same block: the merge tool hands out only indices that the sink
  returned since the block began.
\<close>

theorem triangle_indices_come_from_the_sink:
  "take (length (calls r)) (calls (snd (ReadBinary E r))) = calls r
   \<and> triangles_known {} (drop (length (calls r)) (calls (snd (ReadBinary E r))))
   \<and> take (length (calls r)) (calls (snd (ReadAscii E r))) = calls r
   \<and> triangles_known {} (drop (length (calls r)) (calls (snd (ReadAscii E r))))"
  using ReadBinary_calls [of r E] ReadAscii_calls [of r E] by simp

lemma triangles_known_rejects:
  "\<not> triangles_known {} [AddNode_call (0, 0, 0) 0, AddTriangle_call 0 1 2, AddNode_call (1, 0, 0) 1,
       AddNode_call (0, 1, 0) 2]"
  "triangles_known {} [AddNode_call (0, 0, 0) 0, AddNode_call (1, 0, 0) 1,
       AddNode_call (0, 1, 0) 2, AddTriangle_call 0 1 2]"
  by simp_all

subsection \<open>Nodes within the tolerance\<close>

text \<open>\<^verbatim>\<open>AddNode\<close> looks for the point in the bucket of its hash only: a stored point of
  another bucket is not met, whatever its distance; a stored point of the same bucket
  that is equal for \<^verbatim>\<open>IsEqual\<close> is.\<close>

lemma AddNode_other_bucket:
  assumes "\<forall>kv \<in> set (myData m).
             HashCode E (fst kv) (NbBuckets m) \<noteq> HashCode E aPnt (NbBuckets m)"
  shows "AddNode E aPnt (m, cs) =
           (sink_AddNode E cs aPnt, Bind m aPnt (sink_AddNode E cs aPnt),
            cs @ [AddNode_call aPnt (sink_AddNode E cs aPnt)])"
proof -
  have "find (\<lambda>(k, v). HashCode E k (NbBuckets m) = HashCode E aPnt (NbBuckets m)
                         \<and> IsEqual k aPnt) (myData m) = None"
    using assms by (auto simp: find_None_iff)
  then show ?thesis
    by (simp add: AddNode_def Find_def Let_def)
qed

lemma AddNode_same_bucket:
  assumes "(k, v) \<in> set (myData m)"
    and "HashCode E k (NbBuckets m) = HashCode E aPnt (NbBuckets m)" and "IsEqual k aPnt"
  shows "\<exists>n. AddNode E aPnt (m, cs) = (n, m, cs)"
proof -
  have "find (\<lambda>(k, v). HashCode E k (NbBuckets m) = HashCode E aPnt (NbBuckets m)
                         \<and> IsEqual k aPnt) (myData m) \<noteq> None"
    unfolding find_None_iff using assms by (cases k) force
  then show ?thesis
    by (auto simp: AddNode_def Find_def)
qed

lemma length_example_binary_facet:
  "length example_binary_facet = 50" "length example_binary_facet_near = 50"
  by (simp_all add: example_binary_facet_def example_binary_facet_near_def)

lemma facet_points_example:
  "facet_points example_env example_binary_facet = ((0, 0, 0), (1, 0, 0), (0, 1, 0))"
  using example_binary_facet_points by (simp add: facet_points_def)

lemma facet_points_example_near:
  "facet_points example_env example_binary_facet_near = ((1 / 2 ^ 27, 0, 0), (1, 0, 0), (0, 1, 0))"
  by (simp add: facet_points_def example_binary_facet_near_def aVec3Size_def
      readStlFloatVec3_def readStlFloat_def example_env_def ieee_single_def)

lemma add_triangle_example_near:
  "add_triangle example_env ((1 / 2 ^ 27, 0, 0), (1, 0, 0), (0, 1, 0))
     (\<lparr>NbBuckets = 1024, myData = [((0, 1, 0), 2), ((1, 0, 0), 1), ((0, 0, 0), 0)]\<rparr>,
      [AddNode_call (0, 0, 0) 0, AddNode_call (1, 0, 0) 1, AddNode_call (0, 1, 0) 2,
       AddTriangle_call 0 1 2]) =
     (\<lparr>NbBuckets = 1024,
        myData = [((1 / 2 ^ 27, 0, 0), 3), ((0, 1, 0), 2), ((1, 0, 0), 1), ((0, 0, 0), 0)]\<rparr>,
      [AddNode_call (0, 0, 0) 0, AddNode_call (1, 0, 0) 1, AddNode_call (0, 1, 0) 2,
       AddTriangle_call 0 1 2, AddNode_call (1 / 2 ^ 27, 0, 0) 3, AddTriangle_call 3 1 2])"
  by (simp add: node_defs example_defs)

lemma near_IsEqual: "IsEqual (0, 0, 0) (1 / 2 ^ 27, 0, 0)"
  by (simp add: IsEqual_def SquareModulus_def XYZ_minus_def SquareConfusion_def)


text \<open>
  C2. A binary block of two facets: the first with the vertices (0, 0, 0), (1, 0, 0),
  (0, 1, 0), the second with \<open>(1 / 2 ^ 27, 0, 0)\<close>, (1, 0, 0), (0, 1, 0). The first vertex of
  the second facet lies within the tolerance of (0, 0, 0) and is equal to it for
  \<^verbatim>\<open>IsEqual\<close>, but its hash falls in another bucket, where \<^verbatim>\<open>Find\<close> does not meet
  (0, 0, 0): the block registers it as a fourth node and the second triangle uses the
  new index.
\<close>

theorem ReadBinary_registers_near_point_again:
  "IsEqual (0, 0, 0) (1 / 2 ^ 27, 0, 0)
   \<and> HashCode example_env (0, 0, 0) 1024 \<noteq> HashCode example_env (1 / 2 ^ 27, 0, 0) 1024
   \<and> fst (ReadBinary example_env (reader_on 1024 example_binary_block))
   \<and> calls (snd (ReadBinary example_env (reader_on 1024 example_binary_block))) =
       [AddNode_call (0, 0, 0) 0, AddNode_call (1, 0, 0) 1, AddNode_call (0, 1, 0) 2,
        AddTriangle_call 0 1 2, AddNode_call (1 / 2 ^ 27, 0, 0) 3, AddTriangle_call 3 1 2]
   \<and> count_AddNode (calls (snd (ReadBinary example_env (reader_on 1024 example_binary_block))))
       = 4"
proof -
  let ?r = "reader_on 1024 example_binary_block"
  have av: "avail (theStream ?r) =
      replicate 80 (CHR 0x00) @ [CHR 0x02, CHR 0x00, CHR 0x00, CHR 0x00]
      @ example_binary_facet @ example_binary_facet_near"
    by (simp add: avail_reader_on example_binary_block_def)
  have h: "84 \<le> length (avail (theStream ?r))"
    by (simp add: av)
  have c: "2 = header_aNbFacets (take 84 (avail (theStream ?r)))"
    by (simp add: av header_aNbFacets_def)
  have a: "100 = int (length (avail (theStream ?r))) - 84"
    by (simp add: av length_example_binary_facet)
  have N: "2 = (if 50 * max 0 2 \<le> (100::int) then max 0 (2::int) else 80 * (100 div 4000))"
    by (simp add: max_def)
  have dr: "drop 84 (avail (theStream ?r)) = example_binary_facet @ example_binary_facet_near"
    by (simp add: av)
  have cs0: "calls ?r = []"
    by (simp add: reader_on_def)
  have d: "decode_binary example_env (nat 2) (drop 84 (avail (theStream ?r)))
      (MergeNodeTool, calls ?r) =
      (\<lparr>NbBuckets = 1024,
         myData = [((1 / 2 ^ 27, 0, 0), 3), ((0, 1, 0), 2), ((1, 0, 0), 1), ((0, 0, 0), 0)]\<rparr>,
       [AddNode_call (0, 0, 0) 0, AddNode_call (1, 0, 0) 1, AddNode_call (0, 1, 0) 2,
        AddTriangle_call 0 1 2, AddNode_call (1 / 2 ^ 27, 0, 0) 3, AddTriangle_call 3 1 2])"
  proof -
    have n: "nat 2 = Suc (Suc 0)"
      by simp
    have f1: "facet_points example_env (example_binary_facet @ example_binary_facet_near) =
        ((0, 0, 0), (1, 0, 0), (0, 1, 0))"
      by (simp add: facet_points_append length_example_binary_facet facet_points_example)
    have d1: "drop aFaceDataLen (example_binary_facet @ example_binary_facet_near) =
        example_binary_facet_near"
      by (simp add: aFaceDataLen_def aVec3Size_def length_example_binary_facet)
    show ?thesis
      unfolding dr cs0 n
      by (simp only: decode_binary.simps f1 d1 facet_points_example_near add_triangle_example
          add_triangle_example_near)
  qed
  note t = ReadBinary_run [OF example_no_break good_reader_on h c a refl N, unfolded d]
  have hc: "HashCode example_env (0, 0, 0) 1024 \<noteq> HashCode example_env (1 / 2 ^ 27, 0, 0) 1024"
    by (simp add: HashCode_def example_defs M_LN10_def)
  from t near_IsEqual hc show ?thesis
    by (simp add: max_def count_AddNode_def)
qed

subsection \<open>The answer of \<^verbatim>\<open>Read\<close> after a failure of the text parser\<close>

lemma keeps_refl [simp]: "keeps r r"
  by (simp add: keeps_def)

lemma keeps_trans: "keeps r r1 \<Longrightarrow> keeps r1 r2 \<Longrightarrow> keeps r r2"
  by (auto simp: keeps_def)

lemma keeps_same:
  "theStream r' = theStream r \<Longrightarrow> theBuffer r' = theBuffer r \<Longrightarrow> keeps r r'"
  by (simp add: keeps_def pend_def)

lemma keeps_updates [simp]:
  "keeps r (r\<lparr>calls := cs\<rparr>)" "keeps r (r\<lparr>polls := n\<rparr>)" "keeps r (SendFail m r)"
  by (simp_all add: keeps_same SendFail_def)

lemma istream_read_short:
  assumes "good s" and "length (avail s) < n"
  shows "istream_read n s =
           (avail s, s\<lparr>gpos := gpos s + length (avail s), eofbit := True, failbit := True\<rparr>)"
  using assms by (simp add: istream_read_def avail_def Let_def)

lemma ReadLine_not_good:
  assumes bs: "0 < myBufferSize (theBuffer r)" and ng: "\<not> good (theStream r)"
    and nl: "CHR 0x0A \<notin> set p" and p: "myPending (theBuffer r) = p @ chunk"
    and rl: "ReadLine r = (res, r')"
  shows "length (pend r') \<le> length chunk - 1"
proof -
  have "pend r = p @ chunk"
    using ng p by (simp add: pend_def avail_def)
  with ReadLine_spec [OF bs rl]
  have "pend r' = drop 1 (dropWhile (\<lambda>c. c \<noteq> CHR 0x0A) (p @ chunk))"
    by simp
  also have "dropWhile (\<lambda>c. c \<noteq> CHR 0x0A) (p @ chunk) = dropWhile (\<lambda>c. c \<noteq> CHR 0x0A) chunk"
    using nl by (simp add: dropWhile_append)
  finally show ?thesis
    using length_dropWhile_le [of "\<lambda>c. c \<noteq> CHR 0x0A" chunk] by simp
qed

lemma ReadLine_good:
  assumes "0 < myBufferSize (theBuffer r)" and "good (theStream r)"
    and "ReadLine r = (res, r')" and "myBufferSize (theBuffer r) \<le> length (pend r')"
  shows "good (theStream r')"
  using assms
proof (induction r arbitrary: res r' rule: ReadLine.induct)
  case (1 r)
  let ?b = "theBuffer r"
  let ?n = "myBufferSize ?b"
  show ?case
  proof (cases "CHR 0x0A \<in> set (myPending ?b)")
    case True
    with "1.prems"(3) have "theStream r' = theStream r"
      by (subst (asm) ReadLine.simps) (auto simp: Let_def)
    with "1.prems"(2) show ?thesis by simp
  next
    case False
    show ?thesis
    proof (cases "?n \<le> length (avail (theStream r))")
      case full: True
      let ?s = "(theStream r)\<lparr>gpos := gpos (theStream r) + ?n\<rparr>"
      let ?chunk = "take ?n (avail (theStream r))"
      let ?r1 = "r\<lparr>theStream := ?s, theBuffer := ?b\<lparr>myPending := myPending ?b @ ?chunk\<rparr>\<rparr>"
      have rd: "istream_read ?n (theStream r) = (?chunk, ?s)"
        by (rule istream_read_full [OF "1.prems"(2) full])
      have ne: "?chunk \<noteq> []"
        using full "1.prems"(1) by auto
      from False rd ne "1.prems"(3) have rl: "ReadLine ?r1 = (res, r')"
        by (subst (asm) ReadLine.simps) (simp add: Let_def)
      have g1: "good (theStream ?r1)"
        using "1.prems"(2) by (simp add: good_def)
      show ?thesis
        by (rule "1.IH" [OF refl False rd [symmetric] ne _ g1 rl])
          (use "1.prems" in simp_all)
    next
      case short: False
      let ?s = "(theStream r)\<lparr>gpos := gpos (theStream r) + length (avail (theStream r)),
                    eofbit := True, failbit := True\<rparr>"
      let ?chunk = "avail (theStream r)"
      have rd: "istream_read ?n (theStream r) = (?chunk, ?s)"
        using short by (intro istream_read_short [OF "1.prems"(2)]) simp
      have ng: "\<not> good ?s" "avail ?s = []"
        by (simp_all add: good_def avail_def)
      have "length (pend r') < ?n"
      proof (cases "?chunk = []")
        case True
        with False rd "1.prems"(3) have "pend r' = []"
          by (subst (asm) ReadLine.simps)
            (auto simp: Let_def pend_def avail_def good_def split: if_splits)
        with "1.prems"(1) show ?thesis by simp
      next
        case ne: False
        let ?r1 = "r\<lparr>theStream := ?s, theBuffer := ?b\<lparr>myPending := myPending ?b @ ?chunk\<rparr>\<rparr>"
        from False rd ne "1.prems"(3) have rl: "ReadLine ?r1 = (res, r')"
          by (subst (asm) ReadLine.simps) (simp add: Let_def)
        have "length (pend r') \<le> length ?chunk - 1"
          by (rule ReadLine_not_good [OF _ _ False _ rl]) (use "1.prems"(1) ng in simp_all)
        with short ne show ?thesis by (cases ?chunk) auto
      qed
      with "1.prems"(4) show ?thesis by simp
    qed
  qed
qed

lemma ReadLine_keeps: "ReadLine r = (res, r') \<Longrightarrow> keeps r r'"
  unfolding keeps_def
  using ReadLine_spec [of r res r'] ReadLine_pend_le [of r res r'] ReadLine_good [of r res r']
  by blast


lemma ReadAscii_vertex_keeps: "ReadAscii_vertex E r = (v, r') \<Longrightarrow> keeps r r'"
  by (auto simp: ReadAscii_vertex_def split: prod.splits option.splits if_splits
      dest: ReadLine_keeps)

lemma ReadAscii_triangle_keeps:
  assumes t: "ReadAscii_triangle E (L, r) = (out, L', r')"
  shows "keeps r r'"
proof -
  obtain v0 r1 where a: "ReadAscii_vertex E r = (v0, r1)"
    by (cases "ReadAscii_vertex E r") auto
  obtain v1 r2 where b: "ReadAscii_vertex E r1 = (v1, r2)"
    by (cases "ReadAscii_vertex E r1") auto
  obtain v2 r3 where c: "ReadAscii_vertex E r2 = (v2, r3)"
    by (cases "ReadAscii_vertex E r2") auto
  note k1 = ReadAscii_vertex_keeps [OF a]
  note k2 = keeps_trans [OF k1 ReadAscii_vertex_keeps [OF b]]
  note k3 = keeps_trans [OF k2 ReadAscii_vertex_keeps [OF c]]
  show ?thesis
  proof (cases "\<exists>p0 p1 p2. v0 = Vertex p0 \<and> v1 = Vertex p1 \<and> v2 = Vertex p2")
    case False
    from t a b c False have "r' = r1 \<or> r' = SendFail (Cannot_read_vertex (sint (aNbLine L))) r1
        \<or> r' = r2 \<or> r' = SendFail (Cannot_read_vertex (sint (aNbLine L))) r2
        \<or> r' = r3 \<or> r' = SendFail (Cannot_read_vertex (sint (aNbLine L))) r3"
      by (auto simp: ReadAscii_triangle_def split: vertex_line.splits)
    with k1 k2 k3 show ?thesis
      using keeps_trans [OF k1 keeps_updates(3)] keeps_trans [OF k2 keeps_updates(3)]
        keeps_trans [OF k3 keeps_updates(3)]
      by blast
  next
    case True
    then obtain p0 p1 p2 where v: "v0 = Vertex p0" "v1 = Vertex p1" "v2 = Vertex p2"
      by blast
    obtain m ds where at: "add_triangle E (p0, p1, p2) (aMergeToolA L, calls r3) = (m, ds)"
      by (cases "add_triangle E (p0, p1, p2) (aMergeToolA L, calls r3)") auto
    obtain l4 r4 where e1: "ReadLine (r3\<lparr>calls := ds\<rparr>) = (l4, r4)"
      by (cases "ReadLine (r3\<lparr>calls := ds\<rparr>)") auto
    obtain l5 r5 where e2: "ReadLine r4 = (l5, r5)"
      by (cases "ReadLine r4") auto
    from t a b c v at e1 e2 have "r' = r5"
      by (auto simp: ReadAscii_triangle_def)
    moreover have "keeps r r5"
      using keeps_trans [OF keeps_trans [OF keeps_trans [OF k3 keeps_updates(1)]
            ReadLine_keeps [OF e1]] ReadLine_keeps [OF e2]] .
    ultimately show ?thesis by simp
  qed
qed

lemma ReadAscii_progress_keeps: "ReadAscii_progress (L, r) = (L', r') \<Longrightarrow> keeps r r'"
  by (auto simp: ReadAscii_progress_def keeps_def pend_def tellg_def avail_def good_def
      split: prod.splits if_splits)

lemma ReadAscii_keywords_keeps:
  assumes k: "ReadAscii_keywords E (L, r) = (out, L', r')"
  shows "keeps r r'"
proof -
  obtain l1 r1 where a: "ReadLine r = (l1, r1)"
    by (cases "ReadLine r") auto
  obtain l2 r2 where b: "ReadLine r1 = (l2, r2)"
    by (cases "ReadLine r1") auto
  note k1 = ReadLine_keeps [OF a]
  note k2 = keeps_trans [OF k1 ReadLine_keeps [OF b]]
  show ?thesis
  proof (cases "\<exists>aLine aLine2. l1 = Some aLine \<and> \<not> str_starts_with aLine ''endsolid'' 8
      \<and> str_starts_with aLine ''facet'' 5 \<and> l2 = Some aLine2
      \<and> str_starts_with aLine2 ''outer'' 5")
    case True
    with k a b have "ReadAscii_triangle E (L, r2) = (out, L', r')"
      by (auto simp: ReadAscii_keywords_def)
    from keeps_trans [OF k2 ReadAscii_triangle_keeps [OF this]] show ?thesis .
  next
    case False
    with k a b have "r' = r1 \<or> (\<exists>m. r' = SendFail m r1) \<or> (\<exists>m. r' = SendFail m r2)"
      by (auto simp: ReadAscii_keywords_def split: option.splits if_splits)
    with k1 k2 show ?thesis
      using keeps_trans [OF k1 keeps_updates(3)] keeps_trans [OF k2 keeps_updates(3)]
      by blast
  qed
qed

lemma ReadAscii_facet_keeps:
  assumes f: "ReadAscii_facet E (L, r) = (out, L', r')"
  shows "keeps r r'"
proof -
  obtain L0 r0 where p: "ReadAscii_progress (L, r) = (L0, r0)"
    by (cases "ReadAscii_progress (L, r)") auto
  from f p have "ReadAscii_keywords E (L0, r0) = (out, L', r')"
    by (simp add: ReadAscii_facet_def)
  from keeps_trans [OF ReadAscii_progress_keeps [OF p] ReadAscii_keywords_keeps [OF this]]
  show ?thesis .
qed

lemma ReadAscii_loop_keeps:
  "ReadAscii_loop E (L, r) = (res, L', r') \<Longrightarrow> keeps r r'"
proof (induction E "(L, r)" arbitrary: L r rule: ReadAscii_loop.induct)
  case (1 E L r)
  let ?r1 = "r\<lparr>polls := Suc (polls r)\<rparr>"
  obtain out L1 r2 where f: "ReadAscii_facet E (L, ?r1) = (out, L1, r2)"
    by (cases "ReadAscii_facet E (L, ?r1)") auto
  have k2: "keeps r r2"
    by (rule keeps_trans [OF keeps_updates(2) ReadAscii_facet_keeps [OF f]])
  show ?case
  proof (cases "UserBreak E (polls r)")
    case True
    with "1.prems" have "r' = ?r1\<lparr>polls := Suc (polls ?r1)\<rparr>"
      by (subst (asm) ReadAscii_loop.simps) (auto simp: More_def)
    then show ?thesis
      by (simp add: keeps_same)
  next
    case nb: False
    show ?thesis
    proof (cases out)
      case Continue
      with nb f "1.prems" have l: "ReadAscii_loop E (L1, r2) = (res, L', r')"
        by (subst (asm) ReadAscii_loop.simps) (simp add: More_def)
      from "1.hyps" [OF _ _ _ _ _ l] nb f Continue have "keeps r2 r'"
        by (simp add: More_def)
      with k2 show ?thesis by (rule keeps_trans)
    next
      case Break
      with nb f "1.prems" have "r' = r2\<lparr>polls := Suc (polls r2)\<rparr>"
        by (subst (asm) ReadAscii_loop.simps) (auto simp: More_def)
      with k2 show ?thesis
        using keeps_trans [OF k2 keeps_updates(2)] by simp
    next
      case Return_false
      with nb f "1.prems" have "r' = r2"
        by (subst (asm) ReadAscii_loop.simps) (auto simp: More_def)
      with k2 show ?thesis by simp
    qed
  qed
qed

lemma ReadAscii_keeps: "keeps r (snd (ReadAscii E r))"
proof -
  obtain aStartPos s where t: "tellg (theStream r) = (aStartPos, s)"
    by (cases "tellg (theStream r)") auto
  have k0: "keeps r (r\<lparr>theStream := s\<rparr>)"
    using t by (auto simp: keeps_def pend_def tellg_def avail_def good_def split: if_splits)
  obtain l1 r1 where a: "ReadLine (r\<lparr>theStream := s\<rparr>) = (l1, r1)"
    by (cases "ReadLine (r\<lparr>theStream := s\<rparr>)") auto
  note k1 = keeps_trans [OF k0 ReadLine_keeps [OF a]]
  show ?thesis
  proof (cases l1)
    case None
    with t a have "snd (ReadAscii E r) = SendFail Premature_end_of_file r1"
      by (simp add: ReadAscii_def)
    with keeps_trans [OF k1 keeps_updates(3)] show ?thesis by simp
  next
    case (Some aLine)
    let ?L = "\<lparr>aMergeToolA = MergeNodeTool, aNbLine = 1, aProgressPos = aStartPos + aStepB\<rparr>"
    obtain res L' r' where l: "ReadAscii_loop E (?L, r1) = (res, L', r')"
      by (cases "ReadAscii_loop E (?L, r1)") auto
    with Some t a have "snd (ReadAscii E r) = r'"
      by (simp add: ReadAscii_def)
    with keeps_trans [OF k1 ReadAscii_loop_keeps [OF l]] show ?thesis by simp
  qed
qed


lemma ReadAscii_loop_false:
  assumes nb: "\<forall>n. \<not> UserBreak E n"
    and k: "ReadAscii_keywords E (ReadAscii_progress (L, r\<lparr>polls := Suc (polls r)\<rparr>)) =
              (Return_false, L', r')"
  shows "ReadAscii_loop E (L, r) = (False, L', r')"
  using nb k by (subst ReadAscii_loop.simps) (simp add: More_def ReadAscii_facet_def)

lemma ReadAscii_bad_facet_pend:
  assumes bs: "0 < myBufferSize (theBuffer r)"
    and nb: "\<forall>n. \<not> UserBreak E n"
    and h: "CHR 0x0A \<notin> set aHeader"
    and gf: "\<forall>ls \<in> set fs. good_facet E ls"
    and p: "pend r = unlines_nl (aHeader # concat fs) @ l @ CHR 0x0A # rest"
    and nl: "CHR 0x0A \<notin> set l"
    and kw: "\<not> str_starts_with l ''endsolid'' 8" "\<not> str_starts_with l ''facet'' 5"
  shows "pend (snd (ReadAscii E r)) = rest"
proof -
  from ReadAscii_block [OF bs nb h gf p] obtain L' r' where
    b: "ReadAscii E r = (fst (ReadAscii_loop E (L', r')), snd (snd (ReadAscii_loop E (L', r'))))"
    and p': "pend r' = l @ CHR 0x0A # rest"
    and o': "myBufferSize (theBuffer r') = myBufferSize (theBuffer r)"
    by blast
  let ?r1 = "r'\<lparr>polls := Suc (polls r')\<rparr>"
  obtain L0 r0 where pr: "ReadAscii_progress (L', ?r1) = (L0, r0)"
    by (cases "ReadAscii_progress (L', ?r1)") auto
  note o = ReadAscii_progress_obs [OF pr]
  have bs0: "0 < myBufferSize (theBuffer r0)" and p0: "pend r0 = l @ CHR 0x0A # rest"
    using o o' bs p' by simp_all
  from ReadLine_line [OF bs0 p0 nl] obtain r1 where
    rl: "ReadLine r0 = (Some l, r1)" and p1: "pend r1 = rest"
    by blast
  have "ReadAscii_keywords E (L0, r0) =
      (Return_false, L0, SendFail (Unexpected_format_of_facet (sint (aNbLine L0 + 1))) r1)"
    using rl kw by (simp add: ReadAscii_keywords_def)
  with pr have "ReadAscii_keywords E (ReadAscii_progress (L', ?r1)) =
      (Return_false, L0, SendFail (Unexpected_format_of_facet (sint (aNbLine L0 + 1))) r1)"
    by simp
  from ReadAscii_loop_false [OF nb this] b p1 show ?thesis
    by simp
qed

lemma ReadAscii_bad_facet:
  assumes bs: "0 < myBufferSize (theBuffer r)"
    and nb: "\<forall>n. \<not> UserBreak E n"
    and h: "CHR 0x0A \<notin> set aHeader"
    and gf: "\<forall>ls \<in> set fs. good_facet E ls"
    and p: "pend r = unlines_nl (aHeader # concat fs) @ l @ CHR 0x0A # rest"
    and nl: "CHR 0x0A \<notin> set l"
    and kw: "\<not> str_starts_with l ''endsolid'' 8" "\<not> str_starts_with l ''facet'' 5"
    and fits: "2 + 7 * length fs < 2 ^ 31"
  shows "\<not> fst (ReadAscii E r)
         \<and> msgs (snd (ReadAscii E r)) =
             msgs r @ [Unexpected_format_of_facet (2 + 7 * int (length fs))]
         \<and> calls (snd (ReadAscii E r)) = snd (decode_facets E fs (MergeNodeTool, calls r))"
proof -
  have k: "\<exists>r1. ReadAscii_keywords E (L0, r0) = (Return_false, L0, r1)
      \<and> msgs r1 = msgs r0 @ [Unexpected_format_of_facet (2 + 7 * int (length fs))]
      \<and> calls r1 = calls r0 \<and> (False \<longrightarrow> fail (theStream r1))"
    if a: "0 < myBufferSize (theBuffer r0)" "pend r0 = l @ CHR 0x0A # rest"
      "aNbLine L0 = 1 + 7 * of_nat (length fs)" for L0 r0
  proof -
    from ReadAscii_keywords_bad_facet [OF a(1) a(2) nl kw, of E L0] obtain r1 where
      "ReadAscii_keywords E (L0, r0) = (Return_false, L0, r1)"
      "msgs r1 = msgs r0 @ [Unexpected_format_of_facet (sint (aNbLine L0 + 1))]"
      "calls r1 = calls r0"
      by blast
    with a(3) sint_line_number [OF fits] show ?thesis by simp
  qed
  have "fst (ReadAscii E r) = (Return_false = Break)
         \<and> msgs (snd (ReadAscii E r)) =
             msgs r @ [Unexpected_format_of_facet (2 + 7 * int (length fs))]
         \<and> calls (snd (ReadAscii E r)) = snd (decode_facets E fs (MergeNodeTool, calls r))
         \<and> (False \<longrightarrow> fail (theStream (snd (ReadAscii E r))))"
    by (rule ReadAscii_block_last [OF bs nb h gf p]) (use k in simp_all)
  then show ?thesis by simp
qed

text \<open>
  C1. A text file with a header line and any number of well-formed facets, then a line
  at the position of "facet" that begins neither with \<^verbatim>\<open>facet\<close> nor with \<^verbatim>\<open>endsolid\<close>,
  and after it at least as many bytes as the line buffer reads at a time: the text
  parser reports "unexpected format of facet" and returns false, the stream has not
  met its end and is not in the fail state, and \<^verbatim>\<open>Read\<close> returns true.
\<close>

theorem Read_true_after_unexpected_keyword:
  assumes nb: "\<forall>n. \<not> UserBreak E n"
    and h: "CHR 0x0A \<notin> set aHeader"
    and gf: "\<forall>ls \<in> set fs. good_facet E ls"
    and b: "bytes = unlines_nl (aHeader # concat fs) @ l @ CHR 0x0A # rest"
    and nl: "CHR 0x0A \<notin> set l"
    and kw: "\<not> str_starts_with l ''endsolid'' 8" "\<not> str_starts_with l ''facet'' 5"
    and t: "\<not> has_non_ascii (take 134 bytes)"
    and big: "THE_BUFFER_SIZE \<le> length rest"
    and fits: "2 + 7 * length fs < 2 ^ 31"
  shows "Read E (Some bytes) =
           (True, snd (decode_facets E fs (MergeNodeTool, [])),
            [Unexpected_format_of_facet (2 + 7 * int (length fs))])"
proof -
  let ?r = "reader_on THE_BUFFER_SIZE bytes"
  have bs: "0 < myBufferSize (theBuffer ?r)"
    by (simp add: reader_on_def THE_BUFFER_SIZE_def)
  have p: "pend ?r = unlines_nl (aHeader # concat fs) @ l @ CHR 0x0A # rest"
    by (simp add: pend_reader_on b)
  note f = ReadAscii_bad_facet [OF bs nb h gf p nl kw fits]
  have pf: "pend (snd (ReadAscii E ?r)) = rest"
    by (rule ReadAscii_bad_facet_pend [OF bs nb h gf p nl kw])
  have g: "good (theStream ?r)"
    by (simp add: reader_on_def open_stream_def good_def)
  have "good (theStream (snd (ReadAscii E ?r)))"
    using ReadAscii_keeps [of ?r E] bs g big pf
    by (simp add: keeps_def reader_on_def)
  then have nf: "\<not> fail (theStream (snd (ReadAscii E ?r)))"
    by (simp add: good_def fail_def)
  have "length bytes < 134 \<or> \<not> has_non_ascii (take 134 bytes)"
    using t by simp
  from Read_text [OF this conjunct1 [OF f]] nf f show ?thesis
    by (simp add: reader_on_def)
qed

theorem Read_true_after_unexpected_keyword_witness:
  "Read example_env (Some (''solid a\<newline>foo\<newline>'' @ replicate 1100 (CHR ''x''))) =
     (True, [], [Unexpected_format_of_facet 2])"
proof -
  have b: "''solid a\<newline>foo\<newline>'' @ replicate 1100 (CHR ''x'') =
      unlines_nl (''solid a'' # concat []) @ ''foo'' @ CHR 0x0A # replicate 1100 (CHR ''x'')"
    by (simp add: unlines_nl_def)
  have t: "\<not> has_non_ascii (take 134 (''solid a\<newline>foo\<newline>'' @ replicate 1100 (CHR ''x'')))"
    by (simp add: has_non_ascii_iff)
  have kw: "\<not> str_starts_with ''foo'' ''endsolid'' 8" "\<not> str_starts_with ''foo'' ''facet'' 5"
    by (simp_all add: text_defs)
  have big: "THE_BUFFER_SIZE \<le> length (replicate 1100 (CHR ''x''))"
    by (simp add: THE_BUFFER_SIZE_def)
  from Read_true_after_unexpected_keyword [OF example_no_break _ _ b _ kw t big]
  show ?thesis
    by simp
qed

end
